theory Spec2Isabelle
  imports Main "HOL-Library.AList" "HOL-Library.Product_Lexorder"
begin

section \<open>The suffix tree of DNA\_Repeat\_Finder.py\<close>

text \<open>
  The nodes of the tree are Python objects that the construction mutates and shares
  (an edge split re-parents an existing node, suffix links point across the tree), so
  the model keeps them in an explicit store: a list of node records, a node's address
  being its index. The root is allocated first, at address 0; every allocation appends
  to the store. Comparing two nodes in the source (\<open>node != self.root\<close>) is
  comparing their identities, here their addresses.

  \<open>children\<close> is a Python dict from the first symbol of an edge to the child; it is
  an association list in insertion order, which is the order in which a dict is iterated.
\<close>

record node =
  children :: "(char \<times> nat) list"
  start :: int
  endpos :: int
  suffix_link :: "nat option"

datatype error = IndexError

definition SuffixTreeNode :: "int \<Rightarrow> int \<Rightarrow> node" where
  "SuffixTreeNode s e = \<lparr>children = [], start = s, endpos = e, suffix_link = None\<rparr>"

definition root :: nat where
  "root = 0"

text \<open>\<open>text[k]\<close>: a negative index counts from the end, an index out of range raises.\<close>

definition text_at :: "string \<Rightarrow> int \<Rightarrow> error + char" where
  "text_at text k =
     (let n = int (length text); j = (if k < 0 then n + k else k)
      in if 0 \<le> j \<and> j < n then Inr (text ! nat j) else Inl IndexError)"

text \<open>\<open>text[lo:hi]\<close>: a slice clips its bounds and never raises.\<close>

definition py_slice :: "string \<Rightarrow> int \<Rightarrow> int \<Rightarrow> string" where
  "py_slice text lo hi =
     (let n = int (length text);
          l = (if lo < 0 then max (lo + n) 0 else min lo n);
          h = (if hi < 0 then max (hi + n) 0 else min hi n)
      in take (nat (h - l)) (drop (nat l) text))"

subsection \<open>The store\<close>

definition alloc :: "node list \<Rightarrow> node \<Rightarrow> node list \<times> nat" where
  "alloc ns nd = (ns @ [nd], length ns)"

definition set_child :: "node list \<Rightarrow> nat \<Rightarrow> char \<Rightarrow> nat \<Rightarrow> node list" where
  "set_child ns a c b = ns[a := (ns ! a)\<lparr>children := AList.update c b (children (ns ! a))\<rparr>]"

definition set_suffix_link :: "node list \<Rightarrow> nat \<Rightarrow> nat \<Rightarrow> node list" where
  "set_suffix_link ns a l = ns[a := (ns ! a)\<lparr>suffix_link := Some l\<rparr>]"

definition set_start :: "node list \<Rightarrow> nat \<Rightarrow> int \<Rightarrow> node list" where
  "set_start ns a s = ns[a := (ns ! a)\<lparr>start := s\<rparr>]"

subsection \<open>build\_suffix\_tree\<close>

text \<open>The local variables of \<open>build_suffix_tree\<close>, together with the store.\<close>

record build_state =
  nodes :: "node list"
  active_node :: nat
  active_edge :: int
  active_length :: int
  remainder :: int
  last_new_node :: "nat option"

text \<open>
  \<open>if last_new_node: last_new_node.suffix_link = target\<close>. A node object is always
  true, so the test is on \<open>None\<close>.
\<close>

definition link_pending :: "build_state \<Rightarrow> nat \<Rightarrow> node list" where
  "link_pending st target =
     (case last_new_node st of
        None \<Rightarrow> nodes st
      | Some l \<Rightarrow> set_suffix_link (nodes st) l target)"

text \<open>The end of one pass of the while loop, after a leaf was created (lines 74 to 80).\<close>

definition next_suffix :: "int \<Rightarrow> build_state \<Rightarrow> build_state" where
  "next_suffix i st =
     (let st1 = st\<lparr>remainder := remainder st - 1\<rparr>
      in if active_node st1 = root \<and> active_length st1 > 0
         then st1\<lparr>active_length := active_length st1 - 1,
                  active_edge := i - remainder st1 + 1\<rparr>
         else st1\<lparr>active_node :=
                    (case suffix_link (nodes st1 ! active_node st1) of
                       Some l \<Rightarrow> l
                     | None \<Rightarrow> root)\<rparr>)"

text \<open>Lines 38 to 42: no edge starts with the symbol, a leaf is created.\<close>

definition new_leaf :: "int \<Rightarrow> int \<Rightarrow> char \<Rightarrow> build_state \<Rightarrow> build_state" where
  "new_leaf n i c st =
     (let (ns1, leaf) = alloc (nodes st) (SuffixTreeNode i n);
          ns2 = set_child ns1 (active_node st) c leaf;
          st2 = st\<lparr>nodes := ns2\<rparr>
      in case last_new_node st2 of
           None \<Rightarrow> st2
         | Some l \<Rightarrow> st2\<lparr>nodes := link_pending st2 (active_node st2), last_new_node := None\<rparr>)"

text \<open>Lines 55 to 59: the next symbol on the edge is the new symbol.\<close>

definition rule3 :: "build_state \<Rightarrow> build_state" where
  "rule3 st =
     (let st1 = st\<lparr>active_length := active_length st + 1\<rparr>
      in case last_new_node st1 of
           None \<Rightarrow> st1
         | Some l \<Rightarrow> st1\<lparr>nodes := link_pending st1 (active_node st1), last_new_node := None\<rparr>)"

text \<open>
  Lines 62 to 72: the edge to \<open>next_node\<close> is split. \<open>c\<close> is \<open>text[active_edge]\<close>
  and \<open>ci\<close> is \<open>text[i]\<close>, both read before; \<open>text[next_node.start]\<close> is read
  after \<open>next_node.start\<close> has moved and can raise.
\<close>

definition split_edge ::
  "string \<Rightarrow> int \<Rightarrow> int \<Rightarrow> char \<Rightarrow> char \<Rightarrow> nat \<Rightarrow> build_state \<Rightarrow> error + build_state" where
  "split_edge text n i c ci next_node st =
     (let s = start (nodes st ! next_node);
          (ns1, split_node) = alloc (nodes st) (SuffixTreeNode s (s + active_length st));
          ns2 = set_child ns1 (active_node st) c split_node;
          (ns3, leaf) = alloc ns2 (SuffixTreeNode i n);
          ns4 = set_child ns3 split_node ci leaf;
          ns5 = set_start ns4 next_node (s + active_length st)
      in case text_at text (start (ns5 ! next_node)) of
           Inl e \<Rightarrow> Inl e
         | Inr cn \<Rightarrow>
             (let ns6 = set_child ns5 split_node cn next_node;
                  st6 = st\<lparr>nodes := ns6\<rparr>
              in Inr (st6\<lparr>nodes := link_pending st6 split_node,
                          last_new_node := Some split_node\<rparr>)))"

text \<open>
  The while loop of phase \<open>i\<close> (lines 33 to 80). The source gives no bound on the
  number of passes, so the loop is a partial function: \<open>None\<close> is a loop that never
  ends, \<open>Some (Inl e)\<close> a raised exception, \<open>Some (Inr st)\<close> the state at the exit.
\<close>

partial_function (option) extend :: "string \<Rightarrow> int \<Rightarrow> int \<Rightarrow> build_state \<Rightarrow> (error + build_state) option" where
  "extend text n i st =
     (if remainder st > 0 then
        (let st1 = (if active_length st = 0 then st\<lparr>active_edge := i\<rparr> else st)
         in case text_at text (active_edge st1) of
              Inl e \<Rightarrow> Some (Inl e)
            | Inr c \<Rightarrow>
                (case map_of (children (nodes st1 ! active_node st1)) c of
                   None \<Rightarrow> extend text n i (next_suffix i (new_leaf n i c st1))
                 | Some next_node \<Rightarrow>
                     (let edge_length = endpos (nodes st1 ! next_node) - start (nodes st1 ! next_node)
                      in if active_length st1 \<ge> edge_length then
                           extend text n i
                             (st1\<lparr>active_edge := active_edge st1 + edge_length,
                                  active_length := active_length st1 - edge_length,
                                  active_node := next_node\<rparr>)
                         else
                           (case text_at text (start (nodes st1 ! next_node) + active_length st1) of
                              Inl e \<Rightarrow> Some (Inl e)
                            | Inr cm \<Rightarrow>
                                (case text_at text i of
                                   Inl e \<Rightarrow> Some (Inl e)
                                 | Inr ci \<Rightarrow>
                                     if cm = ci then Some (Inr (rule3 st1))
                                     else
                                       (case split_edge text n i c ci next_node st1 of
                                          Inl e \<Rightarrow> Some (Inl e)
                                        | Inr st2 \<Rightarrow> extend text n i (next_suffix i st2)))))))
      else Some (Inr st))"

declare extend.simps [code]

text \<open>The for loop over \<open>range(n)\<close> (lines 28 to 31), one phase for each index.\<close>

fun phases :: "string \<Rightarrow> int \<Rightarrow> nat list \<Rightarrow> build_state \<Rightarrow> (error + build_state) option" where
  "phases text n [] st = Some (Inr st)"
| "phases text n (i # is) st =
     (case extend text n (int i) (st\<lparr>remainder := remainder st + 1, last_new_node := None\<rparr>) of
        None \<Rightarrow> None
      | Some (Inl e) \<Rightarrow> Some (Inl e)
      | Some (Inr st') \<Rightarrow> phases text n is st')"

definition init_state :: build_state where
  "init_state =
     \<lparr>nodes = [SuffixTreeNode (-1) (-1)], active_node = root, active_edge = -1,
      active_length = 0, remainder = 0, last_new_node = None\<rparr>"

definition build_suffix_tree :: "string \<Rightarrow> (error + build_state) option" where
  "build_suffix_tree text = phases text (int (length text)) [0..<length text] init_state"

text \<open>\<open>SuffixTree(text)\<close>: the sentinel is appended and the tree built; the object keeps
  the text and the nodes.\<close>

definition SuffixTree :: "string \<Rightarrow> (error + string \<times> node list) option" where
  "SuffixTree s =
     (let text = s @ ''$''
      in case build_suffix_tree text of
           None \<Rightarrow> None
         | Some (Inl e) \<Rightarrow> Some (Inl e)
         | Some (Inr st) \<Rightarrow> Some (Inr (text, nodes st)))"

subsection \<open>find\_repeats\<close>

text \<open>
  The body of the loop of lines 90 to 95 for one child: \<open>L\<close> is
  \<open>len(current_string)\<close>, and \<open>repeats.append\<close> returns the extended list.
\<close>

definition record_child :: "node list \<Rightarrow> int \<Rightarrow> nat \<Rightarrow> (int \<times> int) list \<Rightarrow> (int \<times> int) list" where
  "record_child ns L child repeats =
     (if endpos (ns ! child) - start (ns ! child) > 0 then
        (let start_pos = start (ns ! child) - L;
             end_pos = start (ns ! child) + endpos (ns ! child) - start (ns ! child) - 1
         in if end_pos > start_pos then repeats @ [(start_pos, end_pos)] else repeats)
      else repeats)"

text \<open>Lines 88 to 95: what one call of \<open>dfs\<close> records before it descends.\<close>

definition record_node :: "node list \<Rightarrow> nat \<Rightarrow> string \<Rightarrow> (int \<times> int) list \<Rightarrow> (int \<times> int) list" where
  "record_node ns a current_string repeats =
     (if length (children (ns ! a)) > 1 \<and> a \<noteq> root
      then fold (record_child ns (int (length current_string))) (map snd (children (ns ! a))) repeats
      else repeats)"

text \<open>
  \<open>dfs\<close> recurses through the store with no bound of its own; the first argument
  bounds the depth of the recursion, and \<open>None\<close> is a traversal that needs more
  (the interpreter's own recursion limit is not modelled). The list \<open>repeats\<close> that
  the source appends to is passed through. \<open>dfs_children\<close> is the loop of lines 96
  to 98 over \<open>node.children.items()\<close>.
\<close>

fun dfs :: "nat \<Rightarrow> string \<Rightarrow> node list \<Rightarrow> nat \<Rightarrow> string \<Rightarrow> (int \<times> int) list \<Rightarrow> (int \<times> int) list option"
  and dfs_children :: "nat \<Rightarrow> string \<Rightarrow> node list \<Rightarrow> string \<Rightarrow> (char \<times> nat) list \<Rightarrow> (int \<times> int) list \<Rightarrow> (int \<times> int) list option" where
  "dfs 0 text ns a current_string repeats = None"
| "dfs (Suc k) text ns a current_string repeats =
     dfs_children k text ns current_string (children (ns ! a)) (record_node ns a current_string repeats)"
| "dfs_children k text ns current_string [] repeats = Some repeats"
| "dfs_children k text ns current_string ((ch, child) # rest) repeats =
     (let edge_length = endpos (ns ! child) - start (ns ! child)
      in case dfs k text ns child
                (current_string @ py_slice text (start (ns ! child)) (start (ns ! child) + edge_length))
                repeats of
           None \<Rightarrow> None
         | Some repeats1 \<Rightarrow> dfs_children k text ns current_string rest repeats1)"

text \<open>
  Lines 100 to 104. \<open>list(set(repeats))\<close> keeps one copy of each pair in an order
  the language leaves open, and \<open>sort\<close> then orders the pairs as tuples, that is
  lexicographically; the result is the same for every order of the copy.
  The result is \<open>None\<close> for an empty list.
\<close>

definition finish :: "(int \<times> int) list \<Rightarrow> (int \<times> int) list option" where
  "finish repeats =
     (let repeats1 = sort (remdups repeats)
      in if repeats1 \<noteq> [] then Some repeats1 else None)"

definition find_repeats :: "nat \<Rightarrow> string \<times> node list \<Rightarrow> (int \<times> int) list option option" where
  "find_repeats depth tree =
     (case dfs depth (fst tree) (snd tree) root [] [] of
        None \<Rightarrow> None
      | Some repeats \<Rightarrow> Some (finish repeats))"

text \<open>\<open>SuffixTree(s).find_repeats()\<close>, as \<open>process_dna_strings\<close> calls it.\<close>

definition repeats_of :: "nat \<Rightarrow> string \<Rightarrow> (error + (int \<times> int) list option) option" where
  "repeats_of depth s =
     (case SuffixTree s of
        None \<Rightarrow> None
      | Some (Inl e) \<Rightarrow> Some (Inl e)
      | Some (Inr tree) \<Rightarrow>
          (case find_repeats depth tree of
             None \<Rightarrow> None
           | Some r \<Rightarrow> Some (Inr r)))"


subsection \<open>The leaves of the tree\<close>

text \<open>
  The source has no function that lists the leaves; this one reads the store the way
  \<open>dfs\<close> walks it. It gives the strings spelled from a node down to the leaves below it:
  \<open>w\<close> is the string spelled from the root to the node, and the edge to a child adds
  \<open>text[child.start:child.end]\<close>, as line 97 does for \<open>current_string\<close>. A leaf is a
  node with no children. The first argument bounds the depth, as for \<open>dfs\<close>.
\<close>

fun leaf_labels :: "nat \<Rightarrow> string \<Rightarrow> node list \<Rightarrow> nat \<Rightarrow> string \<Rightarrow> string list option"
  and leaf_labels_children :: "nat \<Rightarrow> string \<Rightarrow> node list \<Rightarrow> string \<Rightarrow> (char \<times> nat) list \<Rightarrow> string list option" where
  "leaf_labels 0 text ns a w = None"
| "leaf_labels (Suc k) text ns a w =
     (if children (ns ! a) = [] then Some [w]
      else leaf_labels_children k text ns w (children (ns ! a)))"
| "leaf_labels_children k text ns w [] = Some []"
| "leaf_labels_children k text ns w ((c, child) # rest) =
     (case leaf_labels k text ns child (w @ py_slice text (start (ns ! child)) (endpos (ns ! child))) of
        None \<Rightarrow> None
      | Some ls \<Rightarrow>
          (case leaf_labels_children k text ns w rest of
             None \<Rightarrow> None
           | Some ls' \<Rightarrow> Some (ls @ ls')))"

text \<open>The non-empty suffixes of a text, the longest first.\<close>

definition suffixes_of :: "string \<Rightarrow> string list" where
  "suffixes_of text = map (\<lambda>k. drop k text) [0..<length text]"


subsection \<open>The brute-force enumeration of the specification\<close>

text \<open>
  These definitions follow the words of the specification, not the code: the substrings of
  the sequence itself (no sentinel) that occur at two or more positions, as inclusive index
  ranges, and among them the occurrences that cannot be extended by one symbol to the
  right or to the left and still be an occurrence of a repeated substring.
\<close>

definition substring :: "string \<Rightarrow> nat \<Rightarrow> nat \<Rightarrow> string" where
  "substring s i j = take (Suc j - i) (drop i s)"

definition occurrences :: "string \<Rightarrow> string \<Rightarrow> nat list" where
  "occurrences s w = filter (\<lambda>i. take (length w) (drop i s) = w) [0..<Suc (length s) - length w]"

definition repeated :: "string \<Rightarrow> string \<Rightarrow> bool" where
  "repeated s w = (2 \<le> length (occurrences s w))"

definition brute_force_all :: "string \<Rightarrow> (int \<times> int) list" where
  "brute_force_all s =
     concat (map (\<lambda>i. map (\<lambda>j. (int i, int j))
                          (filter (\<lambda>j. repeated s (substring s i j)) [i..<length s]))
                 [0..<length s])"

definition extendable :: "string \<Rightarrow> nat \<Rightarrow> nat \<Rightarrow> bool" where
  "extendable s i j =
     ((Suc j < length s \<and> repeated s (substring s i (Suc j))) \<or>
      (0 < i \<and> repeated s (substring s (i - 1) j)))"

definition brute_force_maximal :: "string \<Rightarrow> (int \<times> int) list" where
  "brute_force_maximal s =
     filter (\<lambda>(a, b). \<not> extendable s (nat a) (nat b)) (brute_force_all s)"

section \<open>The invariant of the construction\<close>

text \<open>
  The definitions of this section are not in the source: they state what holds of the store
  and of the active point while \<open>build_suffix_tree\<close> runs. A node is named by its address,
  the root is address 0. The function \<open>d\<close> gives each node the length of the string
  spelled from the root to it; \<open>head d ns v\<close> is then the index where an occurrence of that
  string starts in the text, the one that ends at \<open>endpos\<close> of the node.
  \<open>agree tx p q m\<close>: the text has the same \<open>m\<close> symbols from index \<open>p\<close> and from
  index \<open>q\<close>. \<open>reads tx ns a p m\<close>: the \<open>m\<close> symbols of the text from index \<open>p\<close> can
  be read downwards from node \<open>a\<close>, the last edge possibly in part.
\<close>

definition lookup :: "node list \<Rightarrow> nat \<Rightarrow> char \<Rightarrow> nat option" where
  "lookup ns a c = map_of (children (ns ! a)) c"

definition agree :: "string \<Rightarrow> int \<Rightarrow> int \<Rightarrow> int \<Rightarrow> bool" where
  "agree tx p q m = (\<forall>k. 0 \<le> k \<and> k < m \<longrightarrow> tx ! nat (p + k) = tx ! nat (q + k))"

definition head :: "(nat \<Rightarrow> int) \<Rightarrow> node list \<Rightarrow> nat \<Rightarrow> int" where
  "head d ns v = endpos (ns ! v) - d v"

definition keys_ok :: "node list \<Rightarrow> bool" where
  "keys_ok ns = (\<forall>a<length ns. distinct (map fst (children (ns ! a))))"

definition depth_ok :: "string \<Rightarrow> (nat \<Rightarrow> int) \<Rightarrow> node list \<Rightarrow> bool" where
  "depth_ok tx d ns = (ns \<noteq> [] \<and> d 0 = 0 \<and> (\<forall>a<length ns. a \<noteq> 0 \<longrightarrow> 0 < d a))"

definition edge_ok :: "string \<Rightarrow> (nat \<Rightarrow> int) \<Rightarrow> node list \<Rightarrow> nat \<Rightarrow> char \<Rightarrow> nat \<Rightarrow> bool" where
  "edge_ok tx d ns a c b =
     (0 < b \<and> b < length ns \<and> 0 \<le> start (ns ! b) \<and> start (ns ! b) < endpos (ns ! b) \<and>
      endpos (ns ! b) \<le> int (length tx) \<and> tx ! nat (start (ns ! b)) = c \<and>
      d b = d a + (endpos (ns ! b) - start (ns ! b)))"

definition edges_ok :: "string \<Rightarrow> (nat \<Rightarrow> int) \<Rightarrow> node list \<Rightarrow> bool" where
  "edges_ok tx d ns = (\<forall>a c b. a < length ns \<and> lookup ns a c = Some b \<longrightarrow> edge_ok tx d ns a c b)"

definition one_parent :: "node list \<Rightarrow> bool" where
  "one_parent ns = (\<forall>a c a' c' b. a < length ns \<and> a' < length ns \<and>
     lookup ns a c = Some b \<and> lookup ns a' c' = Some b \<longrightarrow> a = a' \<and> c = c')"

definition link_ok :: "string \<Rightarrow> (nat \<Rightarrow> int) \<Rightarrow> node list \<Rightarrow> nat \<Rightarrow> nat \<Rightarrow> bool" where
  "link_ok tx d ns a l =
     (l < length ns \<and> d l = d a - 1 \<and> agree tx (head d ns l) (head d ns a + 1) (d l) \<and>
      (l = 0 \<or> endpos (ns ! l) < int (length tx)))"

definition links_ok :: "string \<Rightarrow> (nat \<Rightarrow> int) \<Rightarrow> node list \<Rightarrow> bool" where
  "links_ok tx d ns = (\<forall>a l. a < length ns \<and> suffix_link (ns ! a) = Some l \<longrightarrow> link_ok tx d ns a l)"

definition wf_store :: "string \<Rightarrow> (nat \<Rightarrow> int) \<Rightarrow> node list \<Rightarrow> bool" where
  "wf_store tx d ns =
     (keys_ok ns \<and> depth_ok tx d ns \<and> edges_ok tx d ns \<and> one_parent ns \<and> links_ok tx d ns)"

definition orphan :: "node list \<Rightarrow> nat \<Rightarrow> bool" where
  "orphan ns b = (\<forall>a c. a < length ns \<longrightarrow> lookup ns a c \<noteq> Some b)"

definition str_ok :: "string \<Rightarrow> (nat \<Rightarrow> int) \<Rightarrow> node list \<Rightarrow> bool" where
  "str_ok tx d ns = (\<forall>a c b. a < length ns \<and> lookup ns a c = Some b \<longrightarrow>
     agree tx (head d ns b) (head d ns a) (d a))"

definition parent_ok :: "node list \<Rightarrow> bool" where
  "parent_ok ns = (\<forall>v. 0 < v \<and> v < length ns \<longrightarrow> (\<exists>a c. a < length ns \<and> lookup ns a c = Some v))"

inductive reads :: "string \<Rightarrow> node list \<Rightarrow> nat \<Rightarrow> int \<Rightarrow> int \<Rightarrow> bool" for tx ns where
  reads_done: "m \<le> 0 \<Longrightarrow> reads tx ns a p m"
| reads_part: "\<lbrakk>a < length ns; lookup ns a (tx ! nat p) = Some b; 0 < m;
     m \<le> endpos (ns ! b) - start (ns ! b); agree tx (start (ns ! b)) p m\<rbrakk> \<Longrightarrow> reads tx ns a p m"
| reads_full: "\<lbrakk>a < length ns; lookup ns a (tx ! nat p) = Some b;
     0 < endpos (ns ! b) - start (ns ! b); endpos (ns ! b) - start (ns ! b) \<le> m;
     agree tx (start (ns ! b)) p (endpos (ns ! b) - start (ns ! b));
     reads tx ns b (p + (endpos (ns ! b) - start (ns ! b))) (m - (endpos (ns ! b) - start (ns ! b)))\<rbrakk>
     \<Longrightarrow> reads tx ns a p m"

definition nodes_ok :: "string \<Rightarrow> (nat \<Rightarrow> int) \<Rightarrow> node list \<Rightarrow> int \<Rightarrow> bool" where
  "nodes_ok tx d ns j = (\<forall>v. 0 < v \<and> v < length ns \<longrightarrow>
     0 \<le> head d ns v \<and> head d ns v < j \<and> endpos (ns ! v) \<le> int (length tx))"

definition suffixes_ok :: "string \<Rightarrow> node list \<Rightarrow> int \<Rightarrow> bool" where
  "suffixes_ok tx ns j = (\<forall>k. 0 \<le> k \<and> k < j \<longrightarrow> reads tx ns 0 k (int (length tx) - k))"

definition is_leaf :: "string \<Rightarrow> node list \<Rightarrow> nat \<Rightarrow> bool" where
  "is_leaf tx ns v = (endpos (ns ! v) = int (length tx))"

definition leaves_ok :: "string \<Rightarrow> (nat \<Rightarrow> int) \<Rightarrow> node list \<Rightarrow> int \<Rightarrow> bool" where
  "leaves_ok tx d ns j =
     ((\<forall>v. 0 < v \<and> v < length ns \<longrightarrow> (is_leaf tx ns v = (\<forall>c. lookup ns v c = None))) \<and>
      (\<forall>k. 0 \<le> k \<and> k < j \<longrightarrow> (\<exists>v. 0 < v \<and> v < length ns \<and> is_leaf tx ns v \<and> head d ns v = k)) \<and>
      (\<forall>v v'. 0 < v \<and> v < length ns \<and> 0 < v' \<and> v' < length ns \<and> is_leaf tx ns v \<and> is_leaf tx ns v' \<and>
         head d ns v = head d ns v' \<longrightarrow> v = v'))"

definition linked_ok :: "string \<Rightarrow> node list \<Rightarrow> nat option \<Rightarrow> bool" where
  "linked_ok tx ns pend = (\<forall>v. 0 < v \<and> v < length ns \<and> \<not> is_leaf tx ns v \<longrightarrow>
     suffix_link (ns ! v) \<noteq> None \<or> pend = Some v)"

definition pending_ok :: "string \<Rightarrow> (nat \<Rightarrow> int) \<Rightarrow> node list \<Rightarrow> int \<Rightarrow> int \<Rightarrow> nat \<Rightarrow> bool" where
  "pending_ok tx d ns i j s =
     (0 < s \<and> s < length ns \<and> \<not> is_leaf tx ns s \<and> d s = i - j + 1 \<and>
      agree tx (head d ns s + 1) j (i - j) \<and> head d ns s + 1 < j \<and>
      tx ! nat (head d ns s + d s) \<noteq> tx ! nat i)"

definition tree_ok :: "string \<Rightarrow> (nat \<Rightarrow> int) \<Rightarrow> node list \<Rightarrow> int \<Rightarrow> bool" where
  "tree_ok tx d ns j =
     (wf_store tx d ns \<and> str_ok tx d ns \<and> parent_ok ns \<and> nodes_ok tx d ns j \<and>
      suffixes_ok tx ns j \<and> leaves_ok tx d ns j)"

definition active_ok :: "string \<Rightarrow> (nat \<Rightarrow> int) \<Rightarrow> node list \<Rightarrow> int \<Rightarrow> int \<Rightarrow> build_state \<Rightarrow> bool" where
  "active_ok tx d ns i j st =
     (active_node st < length ns \<and> 0 \<le> active_length st \<and>
      active_length st + d (active_node st) = i - j \<and>
      agree tx (head d ns (active_node st)) j (d (active_node st)) \<and>
      (active_node st = 0 \<or> \<not> is_leaf tx ns (active_node st)) \<and>
      reads tx ns (active_node st) (i - active_length st) (active_length st) \<and>
      (0 < active_length st \<longrightarrow> active_edge st = i - active_length st))"

definition core :: "string \<Rightarrow> (nat \<Rightarrow> int) \<Rightarrow> int \<Rightarrow> int \<Rightarrow> build_state \<Rightarrow> bool" where
  "core tx d i j st =
     (0 \<le> j \<and> j \<le> i \<and> i \<le> int (length tx) \<and> tree_ok tx d (nodes st) j \<and>
      linked_ok tx (nodes st) (last_new_node st) \<and>
      (\<forall>s. last_new_node st = Some s \<longrightarrow> pending_ok tx d (nodes st) i j s) \<and>
      active_ok tx d (nodes st) i j st)"

definition loop_inv :: "string \<Rightarrow> (nat \<Rightarrow> int) \<Rightarrow> int \<Rightarrow> build_state \<Rightarrow> bool" where
  "loop_inv tx d i st =
     (0 < remainder st \<and> i < int (length tx) \<and> core tx d i (i - remainder st + 1) st)"

definition phase_inv :: "string \<Rightarrow> (nat \<Rightarrow> int) \<Rightarrow> int \<Rightarrow> build_state \<Rightarrow> bool" where
  "phase_inv tx d i st =
     (0 \<le> remainder st \<and> last_new_node st = None \<and> core tx d i (i - remainder st) st)"

definition mid_inv :: "string \<Rightarrow> (nat \<Rightarrow> int) \<Rightarrow> int \<Rightarrow> int \<Rightarrow> build_state \<Rightarrow> bool" where
  "mid_inv tx d i j st =
     (0 \<le> j \<and> j \<le> i \<and> i < int (length tx) \<and> tree_ok tx d (nodes st) (j + 1) \<and>
      linked_ok tx (nodes st) (last_new_node st) \<and>
      (\<forall>s. last_new_node st = Some s \<longrightarrow> pending_ok tx d (nodes st) i (j + 1) s) \<and>
      (0 < active_length st \<longrightarrow> last_new_node st \<noteq> None) \<and>
      (last_new_node st \<noteq> None \<longrightarrow> 0 < active_length st) \<and>
      active_node st < length (nodes st) \<and> 0 \<le> active_length st \<and>
      active_length st + d (active_node st) = i - j \<and>
      agree tx (head d (nodes st) (active_node st)) j (d (active_node st)) \<and>
      (active_node st = 0 \<or> \<not> is_leaf tx (nodes st) (active_node st)) \<and>
      (0 < active_length st \<longrightarrow> active_edge st = i - active_length st))"

definition split_store :: "node list \<Rightarrow> nat \<Rightarrow> char \<Rightarrow> nat \<Rightarrow> int \<Rightarrow> int \<Rightarrow> int \<Rightarrow> char \<Rightarrow> char \<Rightarrow> node list" where
  "split_store ns an c nx al i n ci cn =
     set_child
       (set_start
         (set_child
           (set_child (ns @ [SuffixTreeNode (start (ns ! nx)) (start (ns ! nx) + al)]) an c (length ns)
            @ [SuffixTreeNode i n])
           (length ns) ci (Suc (length ns)))
         nx (start (ns ! nx) + al))
       (length ns) cn nx"

definition finishes :: "string \<Rightarrow> int \<Rightarrow> build_state \<Rightarrow> bool" where
  "finishes tx i st =
     (\<exists>st' d'. extend tx (int (length tx)) i st = Some (Inr st') \<and> phase_inv tx d' (i + 1) st' \<and>
        (remainder st' = 0 \<or> (\<exists>q. 0 \<le> q \<and> q < i \<and> tx ! nat q = tx ! nat i)))"

definition built :: "string \<Rightarrow> nat \<Rightarrow> build_state \<Rightarrow> bool" where
  "built tx k st =
     ((\<exists>d. phase_inv tx d (int k) st) \<and>
      (0 < k \<longrightarrow> remainder st = 0 \<or>
         (\<exists>q. 0 \<le> q \<and> q < int k - 1 \<and> tx ! nat q = tx ! nat (int k - 1))))"

definition label :: "string \<Rightarrow> (nat \<Rightarrow> int) \<Rightarrow> node list \<Rightarrow> nat \<Rightarrow> string" where
  "label tx d ns v = take (nat (d v)) (drop (nat (head d ns v)) tx)"

inductive reach :: "node list \<Rightarrow> nat \<Rightarrow> nat \<Rightarrow> bool" for ns where
  reach_refl: "reach ns a a"
| reach_step: "\<lbrakk>a < length ns; lookup ns a c = Some b; reach ns b v\<rbrakk> \<Longrightarrow> reach ns a v"

definition leaves_below :: "string \<Rightarrow> (nat \<Rightarrow> int) \<Rightarrow> node list \<Rightarrow> nat \<Rightarrow> string set" where
  "leaves_below tx d ns a = {label tx d ns v | v. reach ns a v \<and> children (ns ! v) = []}"


section \<open>What the traversal records\<close>

lemma record_child_pres:
  "\<forall>x\<in>set reps. fst x < snd x \<Longrightarrow> \<forall>x\<in>set (record_child ns L c reps). fst x < snd x"
  by (auto simp: record_child_def Let_def)

lemma fold_record_child_pres:
  "\<forall>x\<in>set reps. fst x < snd x \<Longrightarrow> \<forall>x\<in>set (fold (record_child ns L) cs reps). fst x < snd x"
proof (induction cs arbitrary: reps)
  case Nil
  then show ?case by simp
next
  case (Cons c cs)
  show ?case
    unfolding fold_simps
    by (rule Cons.IH) (rule record_child_pres [OF Cons.prems])
qed

lemma record_node_pres:
  "\<forall>x\<in>set reps. fst x < snd x \<Longrightarrow> \<forall>x\<in>set (record_node ns a cs reps). fst x < snd x"
  unfolding record_node_def using fold_record_child_pres by simp

lemma dfs_pres:
  "dfs k tx ns a cs reps = Some r \<Longrightarrow> \<forall>x\<in>set reps. fst x < snd x \<Longrightarrow> \<forall>x\<in>set r. fst x < snd x"
  and "dfs_children k tx ns cs chs reps = Some r \<Longrightarrow> \<forall>x\<in>set reps. fst x < snd x \<Longrightarrow> \<forall>x\<in>set r. fst x < snd x"
proof (induction k tx ns a cs reps and k tx ns cs chs reps arbitrary: r and r rule: dfs_dfs_children.induct)
  case (1 tx ns a current_string repeats)
  then show ?case by simp
next
  case (2 k tx ns a current_string repeats)
  show ?case
    by (rule "2.IH" [OF _ record_node_pres [OF "2.prems"(2)]]) (use "2.prems"(1) in simp)
next
  case (3 k tx ns current_string repeats)
  then show ?case by simp
next
  case (4 k tx ns current_string ch child rest repeats)
  from "4.prems"(1) obtain r1 where
    d: "dfs k tx ns child (current_string @ py_slice tx (start (ns ! child))
          (start (ns ! child) + (endpos (ns ! child) - start (ns ! child)))) repeats = Some r1"
    and c: "dfs_children k tx ns current_string rest r1 = Some r"
    by (auto simp: Let_def split: option.splits)
  have "\<forall>x\<in>set r1. fst x < snd x"
    by (rule "4.IH"(1) [OF refl d "4.prems"(2)])
  then show ?case
    by (rule "4.IH"(2) [OF refl d c])
qed

lemma set_finish: "finish reps = Some rs \<Longrightarrow> set rs = set reps"
  by (auto simp: finish_def Let_def split: if_splits)

lemma finish_not_empty: "finish reps \<noteq> Some []"
  by (simp add: finish_def Let_def)

lemma finish_sorted: "finish reps = Some rs \<Longrightarrow> sorted rs \<and> distinct rs"
  by (auto simp: finish_def Let_def split: if_splits)

lemma repeats_ofD:
  assumes "repeats_of depth s = Some (Inr r)"
  obtains tree reps where "SuffixTree s = Some (Inr tree)"
    and "dfs depth (fst tree) (snd tree) root [] [] = Some reps" and "r = finish reps"
  using assms
  by (auto simp: repeats_of_def find_repeats_def split: option.splits sum.splits)


text \<open>A deeper bound on the recursion does not change a result.\<close>

lemma dfs_Suc:
  "dfs k tx ns a cs reps = Some r \<Longrightarrow> dfs (Suc k) tx ns a cs reps = Some r"
  and "dfs_children k tx ns cs chs reps = Some r \<Longrightarrow> dfs_children (Suc k) tx ns cs chs reps = Some r"
proof (induction k tx ns a cs reps and k tx ns cs chs reps arbitrary: r and r rule: dfs_dfs_children.induct)
  case (1 tx ns a current_string repeats)
  then show ?case by simp
next
  case (2 k tx ns a current_string repeats)
  from "2.prems" have "dfs_children k tx ns current_string (children (ns ! a))
      (record_node ns a current_string repeats) = Some r" by simp
  from "2.IH" [OF this] show ?case by simp
next
  case (3 k tx ns current_string repeats)
  then show ?case by simp
next
  case (4 k tx ns current_string ch child rest repeats)
  from "4.prems" obtain r1 where
    d: "dfs k tx ns child (current_string @ py_slice tx (start (ns ! child))
          (start (ns ! child) + (endpos (ns ! child) - start (ns ! child)))) repeats = Some r1"
    and c: "dfs_children k tx ns current_string rest r1 = Some r"
    by (auto simp: Let_def split: option.splits)
  from "4.IH"(1) [OF refl d] "4.IH"(2) [OF refl d c] show ?case
    by (simp add: Let_def)
qed

lemma dfs_mono:
  assumes "dfs k tx ns a cs reps = Some r" and "k \<le> k'"
  shows "dfs k' tx ns a cs reps = Some r"
  using assms(2,1) by (induction rule: dec_induct) (blast intro: dfs_Suc(1))+

lemma repeats_of_mono:
  assumes "repeats_of k s = Some (Inr r)" and "k \<le> k'"
  shows "repeats_of k' s = Some (Inr r)"
proof -
  from assms(1) obtain tree reps where t: "SuffixTree s = Some (Inr tree)"
    and d: "dfs k (fst tree) (snd tree) root [] [] = Some reps" and r: "r = finish reps"
    by (rule repeats_ofD)
  from dfs_mono [OF d assms(2)] t r show ?thesis
    by (simp add: repeats_of_def find_repeats_def)
qed

lemma record_child_cases:
  "record_child ns L child repeats = repeats \<or>
   (record_child ns L child repeats = repeats @ [(start (ns ! child) - L, endpos (ns ! child) - 1)] \<and>
    start (ns ! child) - L + L - 1 < endpos (ns ! child) - 1)"
  by (simp add: record_child_def Let_def)

text \<open>
  C9. Every range that \<open>find_repeats\<close> reports spans at least two symbols: its end
  index is at least its start index plus one. (\<open>dfs\<close> appends a pair only under the
  test \<open>end_pos > start_pos\<close>.)
\<close>

theorem find_repeats_min_length:
  assumes "repeats_of depth s = Some (Inr (Some rs))" and "(a, b) \<in> set rs"
  shows "b \<ge> a + 1"
proof -
  from assms(1) obtain tree reps where
    d: "dfs depth (fst tree) (snd tree) root [] [] = Some reps" and f: "finish reps = Some rs"
    by (auto elim!: repeats_ofD)
  have "\<forall>x\<in>set reps. fst x < snd x"
    by (rule dfs_pres(1) [OF d]) simp
  with set_finish [OF f] assms(2) show ?thesis by auto
qed

theorem find_repeats_min_length_witness:
  "repeats_of 3 ''AA'' = Some (Inr (Some [(0, 2), (1, 2)])) \<and>
   (0::int, 2::int) \<in> set [(0, 2), (1, 2)] \<and> (2::int) \<ge> 0 + 1"
proof -
  have h: "repeats_of 3 ''AA'' = Some (Inr (Some [(0, 2), (1, 2)]))" by code_simp
  have m: "(0::int, 2::int) \<in> set [(0, 2), (1, 2)]" by simp
  from find_repeats_min_length [OF h m] h m show ?thesis by simp
qed

text \<open>
  C8. Whenever \<open>find_repeats\<close> returns a list, the list has no duplicate pair and is in
  ascending lexicographic order: by start index, and by end index among ranges that start
  at the same index.
\<close>

theorem find_repeats_sorted_distinct:
  assumes "repeats_of depth s = Some (Inr (Some rs))"
  shows "distinct rs \<and>
         (\<forall>i j. i < j \<and> j < length rs \<longrightarrow>
            fst (rs ! i) < fst (rs ! j) \<or> (fst (rs ! i) = fst (rs ! j) \<and> snd (rs ! i) < snd (rs ! j)))"
proof -
  from assms obtain reps where f: "finish reps = Some rs"
    by (auto elim!: repeats_ofD)
  from finish_sorted [OF f] have s: "sorted rs" and d: "distinct rs" by simp_all
  have "fst (rs ! i) < fst (rs ! j) \<or> (fst (rs ! i) = fst (rs ! j) \<and> snd (rs ! i) < snd (rs ! j))"
    if "i < j" "j < length rs" for i j
  proof -
    from s that have "rs ! i \<le> rs ! j"
      by (simp add: sorted_iff_nth_mono)
    moreover from d that have "rs ! i \<noteq> rs ! j"
      by (simp add: nth_eq_iff_index_eq)
    ultimately show ?thesis
      by (cases "rs ! i"; cases "rs ! j") auto
  qed
  with d show ?thesis by blast
qed

theorem find_repeats_sorted_distinct_witness:
  "repeats_of 3 ''AA'' = Some (Inr (Some [(0, 2), (1, 2)])) \<and>
   distinct [(0::int, 2::int), (1, 2)] \<and>
   fst ([(0::int, 2::int), (1, 2)] ! 0) < fst ([(0::int, 2::int), (1, 2)] ! 1)"
proof -
  have h: "repeats_of 3 ''AA'' = Some (Inr (Some [(0, 2), (1, 2)]))" by code_simp
  from find_repeats_sorted_distinct [OF h] h show ?thesis by simp
qed


text \<open>
  C10. \<open>find_repeats\<close> never returns an empty list: a result is \<open>None\<close> or a
  list with at least one range.
\<close>

theorem find_repeats_never_empty: "repeats_of depth s \<noteq> Some (Inr (Some []))"
proof
  assume "repeats_of depth s = Some (Inr (Some []))"
  then obtain reps where "finish reps = Some []"
    by (auto elim!: repeats_ofD)
  with finish_not_empty show False by simp
qed

section \<open>Short sequences\<close>

lemma tree_empty: "SuffixTree [] = Some (Inr (''$'', [\<lparr>children = [(CHR ''$'', 1)], start = - 1, endpos = - 1, suffix_link = None\<rparr>,
    \<lparr>children = [], start = 0, endpos = 1, suffix_link = None\<rparr>]))"
  by code_simp

lemma tree_dollar: "SuffixTree ''$'' = Some (Inr (''$$'', [\<lparr>children = [(CHR ''$'', 1)], start = - 1, endpos = - 1, suffix_link = None\<rparr>,
    \<lparr>children = [], start = 0, endpos = 2, suffix_link = None\<rparr>]))"
  by code_simp

lemma tree_single:
  assumes "c \<noteq> CHR ''$''"
  shows "SuffixTree [c] = Some (Inr ([c, CHR ''$''],
     [\<lparr>children = [(c, 1), (CHR ''$'', 2)], start = - 1, endpos = - 1, suffix_link = None\<rparr>,
      \<lparr>children = [], start = 0, endpos = 2, suffix_link = None\<rparr>,
      \<lparr>children = [], start = 1, endpos = 2, suffix_link = None\<rparr>]))"
  using assms
  by (simp add: SuffixTree_def build_suffix_tree_def init_state_def extend.simps Let_def
        text_at_def upt_rec root_def new_leaf_def alloc_def set_child_def SuffixTreeNode_def
        next_suffix_def link_pending_def)

text \<open>
  C7. For the empty sequence and for every sequence of one symbol, \<open>find_repeats\<close>
  returns \<open>None\<close>. (The traversal visits the root and its leaves, so a recursion depth
  of two is enough.)
\<close>

theorem find_repeats_short:
  assumes "length s < 2"
  shows "repeats_of (2 + k) s = Some (Inr None)"
proof -
  consider "s = []" | "s = ''$''" | c where "s = [c]" "c \<noteq> CHR ''$''"
    using assms by (cases s; cases "tl s"; cases "hd s = CHR ''$''") auto
  then show ?thesis
  proof cases
    case 1
    then show ?thesis
      by (simp add: repeats_of_def tree_empty find_repeats_def record_node_def root_def finish_def)
  next
    case 2
    then show ?thesis
      by (simp add: repeats_of_def tree_dollar find_repeats_def record_node_def root_def finish_def)
  next
    case 3
    then show ?thesis
      by (simp add: repeats_of_def tree_single find_repeats_def record_node_def root_def finish_def)
  qed
qed


theorem find_repeats_short_witness:
  "length ''A'' < 2 \<and> repeats_of 2 ''A'' = Some (Inr None)"
  using find_repeats_short [of "''A''" 0] by simp

section \<open>The end index of a reported range\<close>

text \<open>
  \<open>dfs\<close> computes \<open>end_pos\<close> as \<open>child.start + child.end - child.start - 1\<close>,
  which is the last index of the child's edge, not the last index of the repeated
  substring that the branching node stands for. Under a leaf the edge ends with the
  sentinel, so the reported range ends at index \<open>|S|\<close>, one past the sequence.
\<close>

text \<open>
  C1. The claim: at a branching node reached with a path of length \<open>L\<close>, the range
  recorded for a child edge that starts at \<open>b\<close> is \<open>(b - L, (b - L) + L - 1)\<close>.
  On the sequence AA the node for the path A (address 2, \<open>L = 1\<close>) records
  \<open>(1, 2)\<close> and \<open>(0, 2)\<close> for its children that start at 2 and at 1, where the
  claim gives \<open>(1, 1)\<close> and \<open>(0, 0)\<close>.
\<close>

theorem dfs_records_AA:
  "SuffixTree ''AA'' =
     Some (Inr (''AA$'',
       [\<lparr>children = [(CHR ''A'', 2), (CHR ''$'', 4)], start = - 1, endpos = - 1, suffix_link = None\<rparr>,
        \<lparr>children = [], start = 1, endpos = 3, suffix_link = None\<rparr>,
        \<lparr>children = [(CHR ''$'', 3), (CHR ''A'', 1)], start = 0, endpos = 1, suffix_link = Some 0\<rparr>,
        \<lparr>children = [], start = 2, endpos = 3, suffix_link = None\<rparr>,
        \<lparr>children = [], start = 2, endpos = 3, suffix_link = None\<rparr>])) \<and>
   record_node
       [\<lparr>children = [(CHR ''A'', 2), (CHR ''$'', 4)], start = - 1, endpos = - 1, suffix_link = None\<rparr>,
        \<lparr>children = [], start = 1, endpos = 3, suffix_link = None\<rparr>,
        \<lparr>children = [(CHR ''$'', 3), (CHR ''A'', 1)], start = 0, endpos = 1, suffix_link = Some 0\<rparr>,
        \<lparr>children = [], start = 2, endpos = 3, suffix_link = None\<rparr>,
        \<lparr>children = [], start = 2, endpos = 3, suffix_link = None\<rparr>] 2 ''A'' [] = [(1, 2), (0, 2)]"
  by code_simp


text \<open>
  C2. The claim: every reported range \<open>(start, end)\<close> has \<open>0 \<le> start \<le> end < |S|\<close>
  and its substring recurs as another reported range of the same length. On the
  sequence AA, of length 2, the ranges reported are \<open>(0, 2)\<close> and \<open>(1, 2)\<close>: both end
  at index 2, and they have different lengths.
\<close>

theorem find_repeats_AA: "repeats_of (3 + k) ''AA'' = Some (Inr (Some [(0, 2), (1, 2)]))"
proof -
  have "repeats_of 3 ''AA'' = Some (Inr (Some [(0, 2), (1, 2)]))" by code_simp
  then show ?thesis by (rule repeats_of_mono) simp
qed


text \<open>
  C5. The claim: on ACGTACGT the reported list contains \<open>(0, 3)\<close> and \<open>(4, 7)\<close>.
  The list reported holds the eight ranges that end at index 8 and neither of the two.
\<close>

theorem find_repeats_ACGTACGT:
  "repeats_of (3 + k) ''ACGTACGT'' =
     Some (Inr (Some [(0, 8), (1, 8), (2, 8), (3, 8), (4, 8), (5, 8), (6, 8), (7, 8)])) \<and>
   (0, 3) \<notin> set [(0::int, 8::int), (1, 8), (2, 8), (3, 8), (4, 8), (5, 8), (6, 8), (7, 8)] \<and>
   (4, 7) \<notin> set [(0::int, 8::int), (1, 8), (2, 8), (3, 8), (4, 8), (5, 8), (6, 8), (7, 8)]"
proof -
  have "repeats_of 3 ''ACGTACGT'' =
     Some (Inr (Some [(0, 8), (1, 8), (2, 8), (3, 8), (4, 8), (5, 8), (6, 8), (7, 8)]))" by code_simp
  then have "repeats_of (3 + k) ''ACGTACGT'' =
     Some (Inr (Some [(0, 8), (1, 8), (2, 8), (3, 8), (4, 8), (5, 8), (6, 8), (7, 8)]))"
    by (rule repeats_of_mono) simp
  then show ?thesis by simp
qed


text \<open>
  C4. The claim: for sequences of at most 12 symbols the reported set is the brute-force
  set of maximal occurrences of repeated substrings. On AA the brute-force enumeration,
  restricted or not, gives \<open>(0, 0)\<close> and \<open>(1, 1)\<close>; the reported ranges are
  \<open>(0, 2)\<close> and \<open>(1, 2)\<close>, neither of which the enumeration contains.
\<close>

theorem find_repeats_not_brute_force_AA:
  "repeats_of (3 + k) ''AA'' = Some (Inr (Some [(0, 2), (1, 2)])) \<and>
   brute_force_maximal ''AA'' = [(0, 0), (1, 1)] \<and>
   brute_force_all ''AA'' = [(0, 0), (1, 1)] \<and>
   set [(0::int, 2::int), (1, 2)] \<inter> set (brute_force_all ''AA'') = {}"
proof -
  have "repeats_of 3 ''AA'' = Some (Inr (Some [(0, 2), (1, 2)]))" by code_simp
  then have a: "repeats_of (3 + k) ''AA'' = Some (Inr (Some [(0, 2), (1, 2)]))"
    by (rule repeats_of_mono) simp
  have b: "brute_force_maximal ''AA'' = [(0, 0), (1, 1)]" by code_simp
  have c: "brute_force_all ''AA'' = [(0, 0), (1, 1)]" by code_simp
  from a b c show ?thesis by simp
qed


section \<open>The construction keeps its invariant\<close>

lemma upd_other:
  assumes "\<And>x. f (g x) = f x"
  shows "f (xs[i := g (xs ! i)] ! j) = f (xs ! j)"
proof (cases "i < length xs")
  case True
  then show ?thesis by (cases "i = j") (simp_all add: assms)
next
  case False
  then have "length xs \<le> i" by simp
  then have "xs[i := g (xs ! i)] = xs" by (rule list_update_beyond)
  then show ?thesis by simp
qed

lemma wf_storeD:
  assumes "wf_store tx d ns"
  shows "keys_ok ns" "depth_ok tx d ns" "edges_ok tx d ns" "one_parent ns" "links_ok tx d ns"
  using assms by (simp_all add: wf_store_def)

lemma edges_okD: "edges_ok tx d ns \<Longrightarrow> a < length ns \<Longrightarrow> lookup ns a c = Some b \<Longrightarrow> edge_ok tx d ns a c b"
  by (simp add: edges_ok_def)

subsection \<open>set\_suffix\_link\<close>

lemma set_suffix_link_simps:
  "length (set_suffix_link ns l t) = length ns"
  "children (set_suffix_link ns l t ! a) = children (ns ! a)"
  "start (set_suffix_link ns l t ! a) = start (ns ! a)"
  "endpos (set_suffix_link ns l t ! a) = endpos (ns ! a)"
  "lookup (set_suffix_link ns l t) a c = lookup ns a c"
  by (simp_all add: set_suffix_link_def lookup_def upd_other)

lemma set_suffix_link_link:
  "a < length ns \<Longrightarrow> suffix_link (set_suffix_link ns l t ! a) = (if a = l then Some t else suffix_link (ns ! a))"
  by (simp add: set_suffix_link_def)

lemma head_set_suffix_link: "head d (set_suffix_link ns l t) v = head d ns v"
  by (simp add: head_def set_suffix_link_simps)

lemma link_ok_set_suffix_link: "link_ok tx d (set_suffix_link ns l t) a b = link_ok tx d ns a b"
  by (simp add: link_ok_def set_suffix_link_simps head_set_suffix_link)

lemma wf_set_suffix_link:
  assumes "wf_store tx d ns" and "l < length ns" and "link_ok tx d ns l t"
  shows "wf_store tx d (set_suffix_link ns l t)"
proof -
  let ?ns = "set_suffix_link ns l t"
  note w = wf_storeD [OF assms(1)]
  have "keys_ok ?ns"
    using w(1) by (simp add: keys_ok_def set_suffix_link_simps)
  moreover have "depth_ok tx d ?ns"
    using w(2) by (simp add: depth_ok_def set_suffix_link_simps) (simp add: set_suffix_link_def)
  moreover have "edges_ok tx d ?ns"
    using w(3) by (simp add: edges_ok_def edge_ok_def set_suffix_link_simps)
  moreover have "one_parent ?ns"
    using w(4) unfolding one_parent_def set_suffix_link_simps .
  moreover have "links_ok tx d ?ns"
    unfolding links_ok_def
  proof (intro allI impI, elim conjE)
    fix a la
    assume a: "a < length ?ns" and s: "suffix_link (?ns ! a) = Some la"
    from a have a': "a < length ns" by (simp add: set_suffix_link_simps)
    show "link_ok tx d ?ns a la"
    proof (cases "a = l")
      case True
      with s a' have "la = t" by (simp add: set_suffix_link_link)
      with True assms(3) show ?thesis by (simp add: link_ok_set_suffix_link)
    next
      case False
      with s a' have "suffix_link (ns ! a) = Some la" by (simp add: set_suffix_link_link)
      with w(5) a' show ?thesis by (simp add: links_ok_def link_ok_set_suffix_link)
    qed
  qed
  ultimately show ?thesis by (simp add: wf_store_def)
qed

subsection \<open>set\_child\<close>

lemma set_child_simps:
  "length (set_child ns a c b) = length ns"
  "start (set_child ns a c b ! x) = start (ns ! x)"
  "endpos (set_child ns a c b ! x) = endpos (ns ! x)"
  "suffix_link (set_child ns a c b ! x) = suffix_link (ns ! x)"
  by (simp_all add: set_child_def upd_other)

lemma lookup_set_child:
  "a < length ns \<Longrightarrow>
   lookup (set_child ns a c b) a' c' = (if a' = a \<and> c' = c then Some b else lookup ns a' c')"
  by (simp add: lookup_def set_child_def nth_list_update update_conv')

lemma keys_set_child:
  assumes "keys_ok ns"
  shows "keys_ok (set_child ns a c b)"
  unfolding keys_ok_def
proof (intro allI impI)
  fix x
  assume "x < length (set_child ns a c b)"
  then have x: "x < length ns" by (simp add: set_child_def)
  with assms have "distinct (map fst (children (ns ! x)))" by (simp add: keys_ok_def)
  with x show "distinct (map fst (children (set_child ns a c b ! x)))"
    by (cases "x = a") (simp_all add: set_child_def distinct_update)
qed

lemma edge_ok_set_child:
  "edge_ok tx d (set_child ns a c b) x y z = edge_ok tx d ns x y z"
  by (simp add: edge_ok_def set_child_simps)

lemma link_ok_set_child: "link_ok tx d (set_child ns a c b) x y = link_ok tx d ns x y"
  by (simp add: link_ok_def head_def set_child_simps)

lemma wf_set_child:
  assumes "wf_store tx d ns" and "a < length ns" and "orphan ns b" and "edge_ok tx d ns a c b"
  shows "wf_store tx d (set_child ns a c b)"
proof -
  let ?ns = "set_child ns a c b"
  note w = wf_storeD [OF assms(1)]
  have "keys_ok ?ns" using w(1) by (rule keys_set_child)
  moreover have "depth_ok tx d ?ns"
    using w(2) by (simp add: depth_ok_def set_child_simps) (simp add: set_child_def)
  moreover have "edges_ok tx d ?ns"
    unfolding edges_ok_def
  proof (intro allI impI, elim conjE)
    fix x y z
    assume "x < length ?ns" and l: "lookup ?ns x y = Some z"
    then have x: "x < length ns" by (simp add: set_child_simps)
    show "edge_ok tx d ?ns x y z"
    proof (cases "x = a \<and> y = c")
      case True
      with l assms(2) have "z = b" by (simp add: lookup_set_child)
      with True assms(4) show ?thesis by (simp add: edge_ok_set_child)
    next
      case False
      with l assms(2) have "lookup ns x y = Some z" by (simp add: lookup_set_child)
      with w(3) x show ?thesis by (simp add: edge_ok_set_child edges_ok_def)
    qed
  qed
  moreover have "one_parent ?ns"
    unfolding one_parent_def
  proof (intro allI impI, elim conjE)
    fix x y x' y' z
    assume "x < length ?ns" "x' < length ?ns"
      and l: "lookup ?ns x y = Some z" and l': "lookup ?ns x' y' = Some z"
    then have x: "x < length ns" "x' < length ns" by (simp_all add: set_child_simps)
    from assms(3) x have nb: "lookup ns x y \<noteq> Some b" "lookup ns x' y' \<noteq> Some b"
      by (simp_all add: orphan_def)
    show "x = x' \<and> y = y'"
    proof (cases "x = a \<and> y = c")
      case True
      with l assms(2) have z: "z = b" by (simp add: lookup_set_child)
      with l' assms(2) nb(2) have "x' = a \<and> y' = c"
        by (simp add: lookup_set_child split: if_splits)
      with True show ?thesis by simp
    next
      case False
      with l assms(2) have 1: "lookup ns x y = Some z" by (simp add: lookup_set_child)
      with nb(1) have "z \<noteq> b" by auto
      with l' assms(2) have "lookup ns x' y' = Some z"
        by (simp add: lookup_set_child split: if_splits)
      with w(4) x 1 show ?thesis unfolding one_parent_def by blast
    qed
  qed
  moreover have "links_ok tx d ?ns"
    using w(5) by (simp add: links_ok_def link_ok_set_child set_child_simps)
  ultimately show ?thesis by (simp add: wf_store_def)
qed

lemma orphan_set_child:
  assumes "orphan ns x" and "x \<noteq> b" and "a < length ns"
  shows "orphan (set_child ns a c b) x"
  using assms by (simp add: orphan_def set_child_simps lookup_set_child)

lemma orphan_replaced:
  assumes "one_parent ns" and "a < length ns" and "lookup ns a c = Some old" and "old \<noteq> b"
  shows "orphan (set_child ns a c b) old"
  unfolding orphan_def
proof (intro allI impI)
  fix x y
  assume "x < length (set_child ns a c b)"
  then have x: "x < length ns" by (simp add: set_child_simps)
  show "lookup (set_child ns a c b) x y \<noteq> Some old"
  proof
    assume l: "lookup (set_child ns a c b) x y = Some old"
    with assms(2,4) have "\<not> (x = a \<and> y = c)" and "lookup ns x y = Some old"
      by (auto simp: lookup_set_child split: if_splits)
    with assms(1,2,3) x show False unfolding one_parent_def by blast
  qed
qed

subsection \<open>set\_start\<close>

lemma set_start_simps:
  "length (set_start ns a s) = length ns"
  "children (set_start ns a s ! x) = children (ns ! x)"
  "endpos (set_start ns a s ! x) = endpos (ns ! x)"
  "suffix_link (set_start ns a s ! x) = suffix_link (ns ! x)"
  "lookup (set_start ns a s) x c = lookup ns x c"
  by (simp_all add: set_start_def lookup_def upd_other)

lemma start_set_start:
  "a < length ns \<Longrightarrow> start (set_start ns a s ! x) = (if x = a then s else start (ns ! x))"
  by (simp add: set_start_def)

lemma link_ok_set_start: "link_ok tx d (set_start ns a s) x y = link_ok tx d ns x y"
  by (simp add: link_ok_def head_def set_start_simps)

lemma wf_set_start:
  assumes "wf_store tx d ns" and "orphan ns b"
  shows "wf_store tx d (set_start ns b s)"
proof -
  let ?ns = "set_start ns b s"
  note w = wf_storeD [OF assms(1)]
  have "keys_ok ?ns" using w(1) by (simp add: keys_ok_def set_start_simps)
  moreover have "depth_ok tx d ?ns"
    using w(2) by (simp add: depth_ok_def set_start_simps) (simp add: set_start_def)
  moreover have "edges_ok tx d ?ns"
    unfolding edges_ok_def
  proof (intro allI impI, elim conjE)
    fix x y z
    assume "x < length ?ns" and "lookup ?ns x y = Some z"
    then have x: "x < length ns" and l: "lookup ns x y = Some z" by (simp_all add: set_start_simps)
    with assms(2) have "z \<noteq> b" by (auto simp: orphan_def)
    moreover from w(3) x l have "edge_ok tx d ns x y z" by (rule edges_okD)
    ultimately show "edge_ok tx d ?ns x y z"
      by (cases "b < length ns") (simp_all add: edge_ok_def set_start_simps start_set_start set_start_def)
  qed
  moreover have "one_parent ?ns"
    using w(4) unfolding one_parent_def set_start_simps .
  moreover have "links_ok tx d ?ns"
    using w(5) by (simp add: links_ok_def link_ok_set_start set_start_simps)
  ultimately show ?thesis by (simp add: wf_store_def)
qed

subsection \<open>Allocation\<close>

lemma lookup_append:
  "lookup (ns @ [nd]) a c = (if a < length ns then lookup ns a c else if a = length ns then map_of (children nd) c else lookup (ns @ [nd]) a c)"
  by (simp add: lookup_def nth_append)

lemma link_ok_alloc:
  "a < length ns \<Longrightarrow> l < length ns \<Longrightarrow>
   link_ok tx (d(length ns := dv)) (ns @ [nd]) a l = link_ok tx d ns a l"
  by (simp add: link_ok_def head_def nth_append)

lemma wf_alloc:
  assumes "wf_store tx d ns" and "0 < dv"
  shows "wf_store tx (d(length ns := dv)) (ns @ [SuffixTreeNode s e])"
    and "orphan (ns @ [SuffixTreeNode s e]) (length ns)"
    and "\<And>x. orphan ns x \<Longrightarrow> orphan (ns @ [SuffixTreeNode s e]) x"
proof -
  let ?ns = "ns @ [SuffixTreeNode s e]" and ?d = "d(length ns := dv)"
  note w = wf_storeD [OF assms(1)]
  have lk: "lookup ?ns a c = (if a < length ns then lookup ns a c else None)" if "a < length ?ns" for a c
    using that by (simp add: lookup_def nth_append SuffixTreeNode_def)
  have tgt: "b < length ns" if "a < length ns" "lookup ns a c = Some b" for a c b
    using edges_okD [OF w(3) that] by (simp add: edge_ok_def)
  have "keys_ok ?ns"
    using w(1) by (simp add: keys_ok_def nth_append SuffixTreeNode_def)
  moreover have "depth_ok tx ?d ?ns"
    using w(2) assms(2) by (auto simp: depth_ok_def)
  moreover have "edges_ok tx ?d ?ns"
    unfolding edges_ok_def
  proof (intro allI impI, elim conjE)
    fix x y z
    assume x: "x < length ?ns" and l: "lookup ?ns x y = Some z"
    from l lk [OF x] have x': "x < length ns" and l': "lookup ns x y = Some z"
      by (simp_all split: if_splits)
    from edges_okD [OF w(3) x' l'] x' show "edge_ok tx ?d ?ns x y z"
      by (simp add: edge_ok_def nth_append)
  qed
  moreover have "one_parent ?ns"
    unfolding one_parent_def
  proof (intro allI impI, elim conjE)
    fix x y x' y' z
    assume x: "x < length ?ns" "x' < length ?ns"
      and l: "lookup ?ns x y = Some z" "lookup ?ns x' y' = Some z"
    from l lk [OF x(1)] lk [OF x(2)] have "x < length ns" "x' < length ns"
      "lookup ns x y = Some z" "lookup ns x' y' = Some z"
      by (simp_all split: if_splits)
    with w(4) show "x = x' \<and> y = y'" unfolding one_parent_def by blast
  qed
  moreover have "links_ok tx ?d ?ns"
    unfolding links_ok_def
  proof (intro allI impI, elim conjE)
    fix a l
    assume a: "a < length ?ns" and s: "suffix_link (?ns ! a) = Some l"
    then have a': "a < length ns" and s': "suffix_link (ns ! a) = Some l"
      by (auto simp: nth_append SuffixTreeNode_def split: if_splits)
    with w(5) have lo: "link_ok tx d ns a l" by (simp add: links_ok_def)
    then have "l < length ns" by (simp add: link_ok_def)
    with lo a' show "link_ok tx ?d ?ns a l"
      by (simp add: link_ok_alloc)
  qed
  ultimately show "wf_store tx ?d ?ns" by (simp add: wf_store_def)
  show "orphan ?ns (length ns)"
    unfolding orphan_def
  proof (intro allI impI)
    fix a c
    assume a: "a < length ?ns"
    show "lookup ?ns a c \<noteq> Some (length ns)"
      using lk [OF a] tgt [of a c "length ns"] by (auto split: if_splits)
  qed
  show "orphan ?ns x" if "orphan ns x" for x
    unfolding orphan_def
  proof (intro allI impI)
    fix a c
    assume a: "a < length ?ns"
    show "lookup ?ns a c \<noteq> Some x"
      using lk [OF a] that by (auto simp: orphan_def split: if_splits)
  qed
qed

subsection \<open>Agreement of two stretches of the text\<close>

lemma agreeI: "(\<And>k. 0 \<le> k \<Longrightarrow> k < m \<Longrightarrow> tx ! nat (p + k) = tx ! nat (q + k)) \<Longrightarrow> agree tx p q m"
  by (simp add: agree_def)

lemma agreeD: "agree tx p q m \<Longrightarrow> 0 \<le> k \<Longrightarrow> k < m \<Longrightarrow> tx ! nat (p + k) = tx ! nat (q + k)"
  by (simp add: agree_def)

lemma agree_refl: "agree tx p p m"
  by (simp add: agree_def)

lemma agree_empty: "m \<le> 0 \<Longrightarrow> agree tx p q m"
  by (simp add: agree_def)

lemma agree_sym: "agree tx p q m \<Longrightarrow> agree tx q p m"
  by (simp add: agree_def)

lemma agree_trans: "agree tx p q m \<Longrightarrow> agree tx q r m \<Longrightarrow> agree tx p r m"
  by (simp add: agree_def)

lemma agree_mono: "agree tx p q m \<Longrightarrow> m' \<le> m \<Longrightarrow> agree tx p q m'"
  by (simp add: agree_def)

lemma agree_first: "agree tx p q m \<Longrightarrow> 0 < m \<Longrightarrow> tx ! nat p = tx ! nat q"
  using agreeD [of tx p q m 0] by simp

lemma agree_shift:
  assumes "agree tx p q m" and "0 \<le> a"
  shows "agree tx (p + a) (q + a) (m - a)"
proof (rule agreeI)
  fix k :: int
  assume "0 \<le> k" "k < m - a"
  with assms(2) have "0 \<le> a + k" "a + k < m" by simp_all
  from agreeD [OF assms(1) this] show "tx ! nat (p + a + k) = tx ! nat (q + a + k)"
    by (simp add: add.assoc)
qed

lemma agree_append:
  assumes "agree tx p q m1" and "agree tx (p + m1) (q + m1) m2"
  shows "agree tx p q (m1 + m2)"
proof (rule agreeI)
  fix k :: int
  assume k: "0 \<le> k" "k < m1 + m2"
  show "tx ! nat (p + k) = tx ! nat (q + k)"
  proof (cases "k < m1")
    case True
    from agreeD [OF assms(1) k(1) True] show ?thesis .
  next
    case False
    with k have "0 \<le> k - m1" "k - m1 < m2" by simp_all
    from agreeD [OF assms(2) this] show ?thesis by simp
  qed
qed

subsection \<open>Reading a stretch of the text from a node\<close>

lemma reads_step:
  assumes "reads tx ns a p m" and "0 < m"
  obtains b where "a < length ns" and "lookup ns a (tx ! nat p) = Some b"
    and "agree tx (start (ns ! b)) p (min m (endpos (ns ! b) - start (ns ! b)))"
    and "endpos (ns ! b) - start (ns ! b) < m \<Longrightarrow>
         reads tx ns b (p + (endpos (ns ! b) - start (ns ! b))) (m - (endpos (ns ! b) - start (ns ! b)))"
  using assms
proof (cases rule: reads.cases)
  case reads_done
  with assms(2) show ?thesis by simp
next
  case (reads_part b)
  then show ?thesis by (intro that [of b]) (simp_all add: min_def)
next
  case (reads_full b)
  then show ?thesis by (intro that [of b]) (simp_all add: min_def)
qed

lemma reads_child:
  assumes "reads tx ns a q r" and "lookup ns a (tx ! nat q) = Some b"
    and "0 < endpos (ns ! b) - start (ns ! b)" and "endpos (ns ! b) - start (ns ! b) \<le> r"
  shows "reads tx ns b (q + (endpos (ns ! b) - start (ns ! b))) (r - (endpos (ns ! b) - start (ns ! b)))"
proof -
  from assms(3,4) have r: "0 < r" by simp
  from assms(1) r obtain b' where b': "lookup ns a (tx ! nat q) = Some b'"
    and f: "endpos (ns ! b') - start (ns ! b') < r \<Longrightarrow>
         reads tx ns b' (q + (endpos (ns ! b') - start (ns ! b'))) (r - (endpos (ns ! b') - start (ns ! b')))"
    by (rule reads_step) blast
  from b' assms(2) have eq: "b' = b" by simp
  show ?thesis
  proof (cases "endpos (ns ! b) - start (ns ! b) < r")
    case True
    with f eq show ?thesis by simp
  next
    case False
    then show ?thesis by (intro reads_done) simp
  qed
qed

lemma reads_prefix:
  assumes "reads tx ns a p m" and "m' \<le> m"
  shows "reads tx ns a p m'"
  using assms
proof (induction arbitrary: m' rule: reads.induct)
  case (reads_done m a p)
  then show ?case by (intro reads.reads_done) simp
next
  case (reads_part a p b m)
  show ?case
  proof (cases "0 < m'")
    case True
    from reads_part(5) reads_part.prems have "agree tx (start (ns ! b)) p m'" by (rule agree_mono)
    with True reads_part(1,2,4) reads_part.prems show ?thesis
      by (intro reads.reads_part [of a ns tx p b]) simp_all
  next
    case False
    then show ?thesis by (intro reads.reads_done) simp
  qed
next
  case (reads_full a p b m)
  let ?el = "endpos (ns ! b) - start (ns ! b)"
  show ?case
  proof (cases "0 < m'")
    case False
    then show ?thesis by (intro reads.reads_done) simp
  next
    case pos: True
    show ?thesis
    proof (cases "m' \<le> ?el")
      case True
      with reads_full(5) have "agree tx (start (ns ! b)) p m'" by (rule agree_mono)
      with True pos reads_full(1,2) show ?thesis
        by (intro reads.reads_part [of a ns tx p b]) simp_all
    next
      case False
      with reads_full.prems have "m' - ?el \<le> m - ?el" by simp
      then have "reads tx ns b (p + ?el) (m' - ?el)" by (rule reads_full.IH)
      with False reads_full(1,2,3,5) show ?thesis
        by (intro reads.reads_full [of a ns tx p b]) simp_all
    qed
  qed
qed

lemma reads_agree:
  assumes "reads tx ns a p m" and "agree tx p q m"
  shows "reads tx ns a q m"
  using assms
proof (induction arbitrary: q rule: reads.induct)
  case (reads_done m a p)
  then show ?case by (intro reads.reads_done)
next
  case (reads_part a p b m)
  from reads_part(3,6) have f: "tx ! nat p = tx ! nat q" by (intro agree_first [of tx p q m])
  from reads_part(5,6) have "agree tx (start (ns ! b)) q m" by (rule agree_trans)
  with reads_part(1,2,3,4) f show ?case
    by (intro reads.reads_part [of a ns tx q b]) simp_all
next
  case (reads_full a p b m)
  let ?el = "endpos (ns ! b) - start (ns ! b)"
  from reads_full(3,4) have m: "0 < m" by simp
  with reads_full.prems have f: "tx ! nat p = tx ! nat q" by (intro agree_first [of tx p q m])
  from reads_full.prems reads_full(4) have "agree tx p q ?el" by (rule agree_mono)
  with reads_full(5) have 1: "agree tx (start (ns ! b)) q ?el" by (rule agree_trans)
  from reads_full.prems reads_full(3) have "agree tx (p + ?el) (q + ?el) (m - ?el)"
    by (intro agree_shift) simp_all
  then have "reads tx ns b (q + ?el) (m - ?el)" by (rule reads_full.IH)
  with reads_full(1,2,3,4) f 1 show ?case
    by (intro reads.reads_full [of a ns tx q b]) simp_all
qed

text \<open>A store that keeps every edge of another one, with the same labels, reads what it reads.\<close>

lemma reads_mono:
  assumes "reads tx ns a p m"
    and "length ns \<le> length ns'"
    and "\<And>a c b. a < length ns \<Longrightarrow> lookup ns a c = Some b \<Longrightarrow>
          lookup ns' a c = Some b \<and> start (ns' ! b) = start (ns ! b) \<and> endpos (ns' ! b) = endpos (ns ! b)"
  shows "reads tx ns' a p m"
  using assms(1)
proof (induction rule: reads.induct)
  case (reads_done m a p)
  then show ?case by (intro reads.reads_done)
next
  case (reads_part a p b m)
  from assms(3) [OF reads_part(1,2)] reads_part assms(2) show ?case
    by (intro reads.reads_part [of a ns' tx p b]) simp_all
next
  case (reads_full a p b m)
  from assms(3) [OF reads_full(1,2)] reads_full assms(2) show ?case
    by (intro reads.reads_full [of a ns' tx p b]) simp_all
qed

subsection \<open>From the root to a node and back\<close>

lemma edge_facts:
  assumes "edges_ok tx d ns" and "a < length ns" and "lookup ns a c = Some b"
  shows "0 < b" "b < length ns" "0 \<le> start (ns ! b)" "start (ns ! b) < endpos (ns ! b)"
    "endpos (ns ! b) \<le> int (length tx)" "tx ! nat (start (ns ! b)) = c"
    "d b = d a + (endpos (ns ! b) - start (ns ! b))"
    "head d ns b + d a = start (ns ! b)"
  using edges_okD [OF assms] by (simp_all add: edge_ok_def head_def)

lemma depth_nonneg:
  assumes "depth_ok tx d ns" and "a < length ns"
  shows "0 \<le> d a"
proof (cases "a = 0")
  case True
  with assms show ?thesis by (simp add: depth_ok_def)
next
  case False
  with assms have "0 < d a" by (simp add: depth_ok_def)
  then show ?thesis by simp
qed

lemma descend:
  assumes e: "edges_ok tx d ns" and s: "str_ok tx d ns" and pa: "parent_ok ns" and dp: "depth_ok tx d ns"
    and r: "reads tx ns 0 p m"
  shows "v < length ns \<Longrightarrow> agree tx (head d ns v) p (d v) \<Longrightarrow> d v \<le> m \<Longrightarrow>
         reads tx ns v (p + d v) (m - d v)"
proof (induction "nat (d v)" arbitrary: v rule: less_induct)
  case less
  show ?case
  proof (cases "v = 0")
    case True
    with dp r show ?thesis by (simp add: depth_ok_def)
  next
    case False
    with pa less.prems(1) obtain a c where a: "a < length ns" and l: "lookup ns a c = Some v"
      by (auto simp: parent_ok_def)
    note f = edge_facts [OF e a l]
    let ?el = "endpos (ns ! v) - start (ns ! v)"
    from depth_nonneg [OF dp a] have da: "0 \<le> d a" .
    from f(4,7) da have lt: "nat (d a) < nat (d v)" by simp
    from s a l have "agree tx (head d ns v) (head d ns a) (d a)" by (simp add: str_ok_def)
    then have "agree tx (head d ns a) (head d ns v) (d a)" by (rule agree_sym)
    moreover from f(4,7) have dav: "d a \<le> d v" by simp
    with less.prems(2) have av: "agree tx (head d ns v) p (d a)"
      by (rule agree_mono)
    ultimately have "agree tx (head d ns a) p (d a)" by (rule agree_trans)
    moreover from less.prems(3) f(4,7) have "d a \<le> m" by simp
    ultimately have ra: "reads tx ns a (p + d a) (m - d a)"
      by (intro less.hyps [OF lt a])
    from f(4,7) have "d a < d v" by simp
    with less.prems(2) da have "tx ! nat (head d ns v + d a) = tx ! nat (p + d a)"
      by (rule agreeD)
    with f(6,8) have "tx ! nat (p + d a) = c" by simp
    with l have l': "lookup ns a (tx ! nat (p + d a)) = Some v" by simp
    from less.prems(3) f(4,7) have "?el \<le> m - d a" by simp
    with ra l' f(4) have rr: "reads tx ns v (p + d a + ?el) (m - d a - ?el)"
      by (intro reads_child [of tx ns a "p + d a" "m - d a" v]) simp_all
    from f(7) have e1: "p + d a + ?el = p + d v" and e2: "m - d a - ?el = m - d v" by simp_all
    from rr [unfolded e1 e2] show ?thesis .
  qed
qed

lemma ascend:
  assumes e: "edges_ok tx d ns" and s: "str_ok tx d ns" and pa: "parent_ok ns" and dp: "depth_ok tx d ns"
  shows "v < length ns \<Longrightarrow> agree tx (head d ns v) p (d v) \<Longrightarrow> 0 \<le> m \<Longrightarrow>
         reads tx ns v (p + d v) m \<Longrightarrow> reads tx ns 0 p (d v + m)"
proof (induction "nat (d v)" arbitrary: v m rule: less_induct)
  case less
  show ?case
  proof (cases "v = 0")
    case True
    with dp less.prems(4) show ?thesis by (simp add: depth_ok_def)
  next
    case False
    with pa less.prems(1) obtain a c where a: "a < length ns" and l: "lookup ns a c = Some v"
      by (auto simp: parent_ok_def)
    note f = edge_facts [OF e a l]
    let ?el = "endpos (ns ! v) - start (ns ! v)"
    from depth_nonneg [OF dp a] have da: "0 \<le> d a" .
    from f(4,7) da have lt: "nat (d a) < nat (d v)" by simp
    from s a l have "agree tx (head d ns v) (head d ns a) (d a)" by (simp add: str_ok_def)
    then have "agree tx (head d ns a) (head d ns v) (d a)" by (rule agree_sym)
    moreover from f(4,7) have dav: "d a \<le> d v" by simp
    with less.prems(2) have "agree tx (head d ns v) p (d a)"
      by (rule agree_mono)
    ultimately have aa: "agree tx (head d ns a) p (d a)" by (rule agree_trans)
    from f(4,7) have "d a < d v" by simp
    with less.prems(2) da have "tx ! nat (head d ns v + d a) = tx ! nat (p + d a)"
      by (rule agreeD)
    with f(6,8) have "tx ! nat (p + d a) = c" by simp
    with l have l': "lookup ns a (tx ! nat (p + d a)) = Some v" by simp
    from less.prems(2) da have "agree tx (head d ns v + d a) (p + d a) (d v - d a)"
      by (rule agree_shift)
    with f(7,8) have ag: "agree tx (start (ns ! v)) (p + d a) ?el" by simp
    from f(7) have e1: "p + d v = p + d a + ?el" and e2: "m = ?el + m - ?el" by simp_all
    from less.prems(4) have "reads tx ns v (p + d a + ?el) (?el + m - ?el)"
      by (subst e2 [symmetric], subst e1 [symmetric])
    with a l' f(4) ag less.prems(3) have "reads tx ns a (p + d a) (?el + m)"
      by (intro reads_full [of a ns tx "p + d a" v "?el + m"]) simp_all
    moreover from f(4) less.prems(3) have "0 \<le> ?el + m" by simp
    ultimately have rr: "reads tx ns 0 p (d a + (?el + m))"
      by (intro less.hyps [OF lt a aa])
    from f(7) have e3: "d a + (?el + m) = d v + m" by simp
    from rr [unfolded e3] show ?thesis .
  qed
qed

subsection \<open>The store after a leaf was added\<close>

lemma lookup_alloc:
  "a \<le> length ns \<Longrightarrow>
   lookup (ns @ [SuffixTreeNode s e]) a c = (if a < length ns then lookup ns a c else None)"
  by (simp add: lookup_def nth_append SuffixTreeNode_def)

lemma new_leaf_state:
  "active_node (new_leaf n i c st) = active_node st"
  "active_edge (new_leaf n i c st) = active_edge st"
  "active_length (new_leaf n i c st) = active_length st"
  "remainder (new_leaf n i c st) = remainder st"
  "last_new_node (new_leaf n i c st) = None"
  by (simp_all add: new_leaf_def alloc_def Let_def link_pending_def split: option.splits)

lemma new_leaf_nodes:
  "nodes (new_leaf n i c st) =
     (let ns2 = set_child (nodes st @ [SuffixTreeNode i n]) (active_node st) c (length (nodes st))
      in case last_new_node st of None \<Rightarrow> ns2 | Some s \<Rightarrow> set_suffix_link ns2 s (active_node st))"
  by (simp add: new_leaf_def alloc_def Let_def link_pending_def split: option.splits)

lemma new_leaf_length: "length (nodes (new_leaf n i c st)) = length (nodes st) + 1"
  by (simp add: new_leaf_nodes Let_def set_suffix_link_simps set_child_simps split: option.splits)

lemma new_leaf_lookup:
  assumes "active_node st < length (nodes st)" and "a \<le> length (nodes st)"
  shows "lookup (nodes (new_leaf n i c st)) a c' =
     (if a = active_node st \<and> c' = c then Some (length (nodes st))
      else if a < length (nodes st) then lookup (nodes st) a c' else None)"
  using assms
  by (simp add: new_leaf_nodes Let_def set_suffix_link_simps lookup_set_child lookup_alloc
        split: option.splits)

lemma new_leaf_start:
  assumes "v \<le> length (nodes st)"
  shows "start (nodes (new_leaf n i c st) ! v) = (if v = length (nodes st) then i else start (nodes st ! v))"
    and "endpos (nodes (new_leaf n i c st) ! v) = (if v = length (nodes st) then n else endpos (nodes st ! v))"
  using assms
  by (simp_all add: new_leaf_nodes Let_def set_suffix_link_simps set_child_simps nth_append
        SuffixTreeNode_def split: option.splits)

lemma new_leaf_link:
  assumes "v \<le> length (nodes st)"
  shows "suffix_link (nodes (new_leaf n i c st) ! v) =
     (if last_new_node st = Some v then Some (active_node st)
      else if v = length (nodes st) then None else suffix_link (nodes st ! v))"
  using assms
  by (simp add: new_leaf_nodes Let_def set_suffix_link_link set_child_simps nth_append
        SuffixTreeNode_def split: option.splits)

lemma coreD:
  assumes "core tx d i j st"
  shows "0 \<le> j" "j \<le> i" "i \<le> int (length tx)" "tree_ok tx d (nodes st) j"
    "linked_ok tx (nodes st) (last_new_node st)"
    "\<And>s. last_new_node st = Some s \<Longrightarrow> pending_ok tx d (nodes st) i j s"
    "active_ok tx d (nodes st) i j st"
  using assms by (simp_all add: core_def)

lemma tree_okD:
  assumes "tree_ok tx d ns j"
  shows "wf_store tx d ns" "str_ok tx d ns" "parent_ok ns" "nodes_ok tx d ns j"
    "suffixes_ok tx ns j" "leaves_ok tx d ns j"
  using assms by (simp_all add: tree_ok_def)

lemma active_okD:
  assumes "active_ok tx d ns i j st"
  shows "active_node st < length ns" "0 \<le> active_length st"
    "active_length st + d (active_node st) = i - j"
    "agree tx (head d ns (active_node st)) j (d (active_node st))"
    "active_node st = 0 \<or> \<not> is_leaf tx ns (active_node st)"
    "reads tx ns (active_node st) (i - active_length st) (active_length st)"
    "0 < active_length st \<Longrightarrow> active_edge st = i - active_length st"
  using assms by (simp_all add: active_ok_def)

lemma nodes_okD:
  assumes "nodes_ok tx d ns j" and "0 < v" and "v < length ns"
  shows "0 \<le> head d ns v" "head d ns v < j" "endpos (ns ! v) \<le> int (length tx)"
  using assms by (simp_all add: nodes_ok_def)

lemma pending_okD:
  assumes "pending_ok tx d ns i j s"
  shows "0 < s" "s < length ns" "\<not> is_leaf tx ns s" "d s = i - j + 1"
    "agree tx (head d ns s + 1) j (i - j)" "head d ns s + 1 < j"
    "tx ! nat (head d ns s + d s) \<noteq> tx ! nat i"
  using assms unfolding pending_ok_def by blast+

lemma leaf_step:
  assumes co: "core tx d i j st" and i: "i < int (length tx)"
    and al0: "active_length st = 0" and c: "c = tx ! nat i"
    and none: "lookup (nodes st) (active_node st) c = None"
  shows "\<exists>d'. mid_inv tx d' i j (new_leaf (int (length tx)) i c st)"
proof -
  let ?n = "int (length tx)"
  let ?ns = "nodes st" and ?an = "active_node st"
  let ?len = "length (nodes st)"
  let ?st' = "new_leaf ?n i c st"
  let ?ns' = "nodes (new_leaf ?n i c st)"
  define d' where "d' = d(?len := ?n - j)"
  note cd = coreD [OF co]
  note t = tree_okD [OF cd(4)]
  note w = wf_storeD [OF t(1)]
  note ac = active_okD [OF cd(7)]
  from ac(3) al0 have dan: "d ?an = i - j" by simp
  from w(2) have ne: "0 < ?len" by (simp add: depth_ok_def)
  have len': "length ?ns' = ?len + 1" by (rule new_leaf_length)
  have d_old: "d' v = d v" if "v < ?len" for v using that by (simp add: d'_def)
  have d_new: "d' ?len = ?n - j" by (simp add: d'_def)
  have lk: "lookup ?ns' a x =
     (if a = ?an \<and> x = c then Some ?len else if a < ?len then lookup ?ns a x else None)"
    if "a \<le> ?len" for a x
    using ac(1) that by (rule new_leaf_lookup)
  have lk_old: "lookup ?ns' a x = Some b" if "a < ?len" "lookup ?ns a x = Some b" for a x b
  proof -
    from that none have "\<not> (a = ?an \<and> x = c)" by auto
    with that lk [of a x] show ?thesis by simp
  qed
  have st_old: "start (?ns' ! v) = start (?ns ! v)" "endpos (?ns' ! v) = endpos (?ns ! v)"
    if "v < ?len" for v
    using that new_leaf_start [of v st ?n i c] by simp_all
  have st_new: "start (?ns' ! ?len) = i" "endpos (?ns' ! ?len) = ?n"
    using new_leaf_start [of ?len st ?n i c] by simp_all
  have h_old: "head d' ?ns' v = head d ?ns v" if "v < ?len" for v
    using that by (simp add: head_def st_old d_old)
  have h_new: "head d' ?ns' ?len = j"
    by (simp add: head_def st_new d_new)
  have leaf_old: "is_leaf tx ?ns' v = is_leaf tx ?ns v" if "v < ?len" for v
    using that by (simp add: is_leaf_def st_old)
  have leaf_new: "is_leaf tx ?ns' ?len"
    using st_new(2) by (simp add: is_leaf_def)
  have tgt: "b < ?len" "0 < b" if "a < ?len" "lookup ?ns a x = Some b" for a x b
    using edge_facts(1,2) [OF w(3) that] by simp_all
  have an_int: "?an = 0 \<or> endpos (?ns ! ?an) < ?n"
  proof (cases "?an = 0")
    case False
    with ac(5) have "\<not> is_leaf tx ?ns ?an" by simp
    moreover from False ac(1) t(4) have "endpos (?ns ! ?an) \<le> int (length tx)"
      by (intro nodes_okD(3) [of tx d ?ns j]) simp_all
    ultimately show ?thesis by (simp add: is_leaf_def)
  qed simp

  txt \<open>the store\<close>
  define ns1 where "ns1 = ?ns @ [SuffixTreeNode i ?n]"
  define ns2 where "ns2 = set_child ns1 ?an c ?len"
  from i cd(2) have "0 < ?n - j" by simp
  with t(1) have w1: "wf_store tx d' ns1" and o1: "orphan ns1 ?len"
    unfolding ns1_def d'_def by (rule wf_alloc(1), rule wf_alloc(2))
  have e1: "edge_ok tx d' ns1 ?an c ?len"
    using ne i cd(1,2) c dan ac(1)
    by (simp add: edge_ok_def ns1_def SuffixTreeNode_def d'_def)
  from ac(1) have an1: "?an < length ns1" by (simp add: ns1_def)
  from w1 an1 o1 e1 have w2: "wf_store tx d' ns2"
    unfolding ns2_def by (rule wf_set_child)
  have nodes': "?ns' = (case last_new_node st of None \<Rightarrow> ns2 | Some s \<Rightarrow> set_suffix_link ns2 s ?an)"
    unfolding ns2_def ns1_def by (simp add: new_leaf_nodes Let_def)
  have h2: "head d' ns2 v = head d ?ns v" if "v < ?len" for v
    using that by (simp add: head_def ns2_def set_child_simps ns1_def nth_append d'_def)
  have w': "wf_store tx d' ?ns'"
  proof (cases "last_new_node st")
    case None
    with w2 nodes' show ?thesis by simp
  next
    case (Some s)
    note p = pending_okD [OF cd(6) [OF Some]]
    from p(5) have "agree tx j (head d ?ns s + 1) (i - j)" by (rule agree_sym)
    with ac(4) dan have "agree tx (head d ?ns ?an) (head d ?ns s + 1) (i - j)"
      by (simp add: agree_trans [of tx _ j])
    with dan have ag: "agree tx (head d ?ns ?an) (head d ?ns s + 1) (d ?an)" by simp
    have len2: "length ns2 = ?len + 1" by (simp add: ns2_def set_child_simps ns1_def)
    have e2: "endpos (ns2 ! ?an) = endpos (?ns ! ?an)"
      using ac(1) by (simp add: ns2_def set_child_simps ns1_def nth_append)
    have "link_ok tx d' ns2 s ?an"
      unfolding link_ok_def
    proof (intro conjI)
      show "?an < length ns2" using ac(1) len2 by simp
      show "d' ?an = d' s - 1" using p(2,4) ac(1) dan by (simp add: d_old)
      show "agree tx (head d' ns2 ?an) (head d' ns2 s + 1) (d' ?an)"
        using ag p(2) ac(1) by (simp add: h2 d_old)
      show "?an = 0 \<or> endpos (ns2 ! ?an) < int (length tx)"
        using an_int e2 by simp
    qed
    moreover from p(2) have "s < length ns2" by (simp add: ns2_def set_child_simps ns1_def)
    ultimately have "wf_store tx d' (set_suffix_link ns2 s ?an)"
      using w2 by (intro wf_set_suffix_link)
    with Some nodes' show ?thesis by simp
  qed
  note w'D = wf_storeD [OF w']

  txt \<open>path labels\<close>
  have s': "str_ok tx d' ?ns'"
    unfolding str_ok_def
  proof (intro allI impI, elim conjE)
    fix a x b
    assume a: "a < length ?ns'" and l: "lookup ?ns' a x = Some b"
    from a len' have a': "a \<le> ?len" by simp
    show "agree tx (head d' ?ns' b) (head d' ?ns' a) (d' a)"
    proof (cases "a = ?an \<and> x = c")
      case True
      with l lk [OF a'] have b: "b = ?len" by simp
      from ac(4) have "agree tx j (head d ?ns ?an) (d ?an)" by (rule agree_sym)
      with True b ac(1) show ?thesis by (simp add: h_new h_old d_old)
    next
      case False
      with l lk [OF a'] have a'': "a < ?len" and l': "lookup ?ns a x = Some b"
        by (simp_all split: if_splits)
      from tgt [OF a'' l'] have b: "b < ?len" by simp
      from t(2) a'' l' have "agree tx (head d ?ns b) (head d ?ns a) (d a)"
        by (simp add: str_ok_def)
      with a'' b show ?thesis by (simp add: h_old d_old)
    qed
  qed
  have p': "parent_ok ?ns'"
    unfolding parent_ok_def
  proof (intro allI impI, elim conjE)
    fix v
    assume v: "0 < v" "v < length ?ns'"
    show "\<exists>a x. a < length ?ns' \<and> lookup ?ns' a x = Some v"
    proof (cases "v = ?len")
      case True
      from ac(1) lk [of ?an c] have "lookup ?ns' ?an c = Some ?len" by simp
      with True ac(1) len' show ?thesis by (intro exI [of _ ?an] exI [of _ c]) simp
    next
      case False
      with v len' have "v < ?len" by simp
      with t(3) v(1) obtain a x where a: "a < ?len" and l: "lookup ?ns a x = Some v"
        by (auto simp: parent_ok_def)
      from lk_old [OF a l] a len' show ?thesis by (intro exI [of _ a] exI [of _ x]) simp
    qed
  qed
  have n': "nodes_ok tx d' ?ns' (j + 1)"
    unfolding nodes_ok_def
  proof (intro allI impI, elim conjE)
    fix v
    assume v: "0 < v" "v < length ?ns'"
    show "0 \<le> head d' ?ns' v \<and> head d' ?ns' v < j + 1 \<and> endpos (?ns' ! v) \<le> int (length tx)"
    proof (cases "v = ?len")
      case True
      with cd(1) show ?thesis by (simp add: h_new st_new)
    next
      case False
      with v len' have v': "v < ?len" by simp
      from nodes_okD [OF t(4) v(1) v'] v' show ?thesis by (simp add: h_old st_old)
    qed
  qed

  txt \<open>the suffixes\<close>
  have mono: "reads tx ?ns' a p m" if "reads tx ?ns a p m" for a p m
    using that
  proof (rule reads_mono)
    show "?len \<le> length ?ns'" using len' by simp
  next
    fix a x b
    assume a: "a < ?len" and l: "lookup ?ns a x = Some b"
    from tgt [OF a l] have "b < ?len" by simp
    with lk_old [OF a l] show "lookup ?ns' a x = Some b \<and> start (?ns' ! b) = start (?ns ! b) \<and>
        endpos (?ns' ! b) = endpos (?ns ! b)"
      by (simp add: st_old)
  qed
  have rd_new: "reads tx ?ns' 0 j (?n - j)"
  proof -
    from ac(1) len' have an': "?an < length ?ns'" by simp
    from ac(4) ac(1) have ag: "agree tx (head d' ?ns' ?an) j (d' ?an)" by (simp add: h_old d_old)
    from ac(1) lk [of ?an c] c have l: "lookup ?ns' ?an (tx ! nat i) = Some ?len" by simp
    from an' l i have "reads tx ?ns' ?an i (?n - i)"
      by (intro reads_part [of ?an ?ns' tx i ?len]) (simp_all add: st_new agree_refl)
    with dan ac(1) have "reads tx ?ns' ?an (j + d' ?an) (?n - i)" by (simp add: d_old)
    moreover from i have "0 \<le> ?n - i" by simp
    ultimately have "reads tx ?ns' 0 j (d' ?an + (?n - i))"
      using w'D(3) s' p' w'D(2) an' ag by (intro ascend [of tx d' ?ns' ?an j "?n - i"])
    with dan ac(1) show ?thesis by (simp add: d_old)
  qed
  have su': "suffixes_ok tx ?ns' (j + 1)"
    unfolding suffixes_ok_def
  proof (intro allI impI, elim conjE)
    fix k :: int
    assume k: "0 \<le> k" "k < j + 1"
    show "reads tx ?ns' 0 k (int (length tx) - k)"
    proof (cases "k = j")
      case True
      with rd_new show ?thesis by simp
    next
      case False
      with k have "k < j" by simp
      with t(5) k(1) have "reads tx ?ns 0 k (int (length tx) - k)" by (simp add: suffixes_ok_def)
      then show ?thesis by (rule mono)
    qed
  qed

  txt \<open>the leaves\<close>
  from t(6) have lv1: "\<And>v. 0 < v \<Longrightarrow> v < ?len \<Longrightarrow> is_leaf tx ?ns v = (\<forall>x. lookup ?ns v x = None)"
    and lv2: "\<And>k. 0 \<le> k \<Longrightarrow> k < j \<Longrightarrow> \<exists>v. 0 < v \<and> v < ?len \<and> is_leaf tx ?ns v \<and> head d ?ns v = k"
    and lv3: "\<And>v v'. 0 < v \<Longrightarrow> v < ?len \<Longrightarrow> 0 < v' \<Longrightarrow> v' < ?len \<Longrightarrow> is_leaf tx ?ns v \<Longrightarrow>
       is_leaf tx ?ns v' \<Longrightarrow> head d ?ns v = head d ?ns v' \<Longrightarrow> v = v'"
    by (simp_all add: leaves_ok_def)
  have l1: "is_leaf tx ?ns' v = (\<forall>x. lookup ?ns' v x = None)" if v: "0 < v" "v < length ?ns'" for v
  proof (cases "v = ?len")
    case True
    with ac(1) lk [of ?len] leaf_new show ?thesis by simp
  next
    case False
    with v len' have v': "v < ?len" by simp
    show ?thesis
    proof (cases "v = ?an")
      case True
      with v(1) ac(5) have "\<not> is_leaf tx ?ns ?an" by simp
      moreover from ac(1) lk [of ?an c] have "lookup ?ns' ?an c = Some ?len" by simp
      ultimately show ?thesis using True v' by (auto simp: leaf_old)
    next
      case False
      with v' lk [of v] have "lookup ?ns' v x = lookup ?ns v x" for x by simp
      with lv1 [OF v(1) v'] v' show ?thesis by (simp add: leaf_old)
    qed
  qed
  have l2: "\<exists>v. 0 < v \<and> v < length ?ns' \<and> is_leaf tx ?ns' v \<and> head d' ?ns' v = k"
    if k: "0 \<le> k" "k < j + 1" for k
  proof (cases "k = j")
    case True
    with ne len' leaf_new h_new show ?thesis by (intro exI [of _ ?len]) simp
  next
    case False
    with k have "k < j" by simp
    from lv2 [OF k(1) this] obtain v where "0 < v" "v < ?len" "is_leaf tx ?ns v" "head d ?ns v = k"
      by blast
    with len' show ?thesis by (intro exI [of _ v]) (simp add: leaf_old h_old)
  qed
  have l3: "v = v'" if v: "0 < v" "v < length ?ns'" "0 < v'" "v' < length ?ns'"
    "is_leaf tx ?ns' v" "is_leaf tx ?ns' v'" "head d' ?ns' v = head d' ?ns' v'" for v v'
  proof -
    have neq: "head d' ?ns' u \<noteq> j" if "0 < u" "u < ?len" for u
      using nodes_okD(2) [OF t(4) that] that by (simp add: h_old)
    show ?thesis
    proof (cases "v = ?len")
      case True
      show ?thesis
      proof (cases "v' = ?len")
        case False
        with v len' have "v' < ?len" by simp
        from neq [OF v(3) this] v(7) True h_new show ?thesis by simp
      qed (use True in simp)
    next
      case False
      with v len' have v1: "v < ?len" by simp
      show ?thesis
      proof (cases "v' = ?len")
        case True
        from neq [OF v(1) v1] v(7) True h_new show ?thesis by simp
      next
        case False
        with v len' have v2: "v' < ?len" by simp
        from v v1 v2 show ?thesis by (intro lv3) (simp_all add: leaf_old h_old)
      qed
    qed
  qed
  from l1 l2 l3 have le': "leaves_ok tx d' ?ns' (j + 1)"
    unfolding leaves_ok_def by blast

  txt \<open>the suffix links\<close>
  have li': "linked_ok tx ?ns' None"
    unfolding linked_ok_def
  proof (intro allI impI, elim conjE)
    fix v
    assume v: "0 < v" "v < length ?ns'" "\<not> is_leaf tx ?ns' v"
    from v(3) leaf_new have "v \<noteq> ?len" by auto
    with v len' have v': "v < ?len" by simp
    with v(3) have "\<not> is_leaf tx ?ns v" by (simp add: leaf_old)
    with cd(5) v(1) v' have "suffix_link (?ns ! v) \<noteq> None \<or> last_new_node st = Some v"
      by (simp add: linked_ok_def)
    with v' new_leaf_link [of v st ?n i c] show "suffix_link (?ns' ! v) \<noteq> None \<or> None = Some v"
      by auto
  qed

  from w' s' p' n' su' le' have "tree_ok tx d' ?ns' (j + 1)" by (simp add: tree_ok_def)
  moreover from ac(1) len' have "?an < length ?ns'" by simp
  moreover from ac(4) ac(1) have "agree tx (head d' ?ns' ?an) j (d' ?an)" by (simp add: h_old d_old)
  moreover from ac(5) ac(1) have "?an = 0 \<or> \<not> is_leaf tx ?ns' ?an" by (auto simp: leaf_old)
  moreover from dan ac(1) have "d' ?an = i - j" by (simp add: d_old)
  ultimately have "mid_inv tx d' i j ?st'"
    using cd(1,2) i li' al0 by (simp add: mid_inv_def new_leaf_state)
  then show ?thesis by blast
qed

subsection \<open>The store after an edge was split\<close>

lemma text_at_in: "0 \<le> k \<Longrightarrow> k < int (length tx) \<Longrightarrow> text_at tx k = Inr (tx ! nat k)"
  by (simp add: text_at_def Let_def)

lemma split_edge_eq:
  assumes "nx < length (nodes st)" and "0 \<le> start (nodes st ! nx) + active_length st"
    and "start (nodes st ! nx) + active_length st < int (length tx)"
  shows "split_edge tx n i c ci nx st =
     Inr (st\<lparr>nodes :=
            (let ns6 = split_store (nodes st) (active_node st) c nx (active_length st) i n ci
                         (tx ! nat (start (nodes st ! nx) + active_length st))
             in case last_new_node st of None \<Rightarrow> ns6
                | Some l \<Rightarrow> set_suffix_link ns6 l (length (nodes st))),
          last_new_node := Some (length (nodes st))\<rparr>)"
  using assms
  by (simp add: split_edge_def alloc_def Let_def split_store_def link_pending_def
        set_child_simps start_set_start text_at_in split: option.splits)

lemma split_store_length: "length (split_store ns an c nx al i n ci cn) = length ns + 2"
  by (simp add: split_store_def set_child_simps set_start_simps)

lemma split_store_lookup:
  assumes "an < length ns" and "a \<le> Suc (length ns)"
  shows "lookup (split_store ns an c nx al i n ci cn) a x =
     (if a = length ns then (if x = cn then Some nx else if x = ci then Some (Suc (length ns)) else None)
      else if a = Suc (length ns) then None
      else if a = an \<and> x = c then Some (length ns)
      else lookup ns a x)"
  using assms
  by (simp add: split_store_def lookup_set_child set_child_simps set_start_simps lookup_alloc)

lemma split_store_start:
  assumes "nx < length ns" and "v \<le> Suc (length ns)"
  shows "start (split_store ns an c nx al i n ci cn ! v) =
     (if v = nx then start (ns ! nx) + al else if v = length ns then start (ns ! nx)
      else if v = Suc (length ns) then i else start (ns ! v))"
  using assms
  by (simp add: split_store_def set_child_simps start_set_start nth_append SuffixTreeNode_def)

lemma split_store_endpos:
  assumes "v \<le> Suc (length ns)"
  shows "endpos (split_store ns an c nx al i n ci cn ! v) =
     (if v = length ns then start (ns ! nx) + al
      else if v = Suc (length ns) then n else endpos (ns ! v))"
  using assms
  by (simp add: split_store_def set_child_simps set_start_simps nth_append SuffixTreeNode_def)

lemma split_store_link:
  assumes "v \<le> Suc (length ns)"
  shows "suffix_link (split_store ns an c nx al i n ci cn ! v) =
     (if v < length ns then suffix_link (ns ! v) else None)"
  using assms
  by (simp add: split_store_def set_child_simps set_start_simps nth_append SuffixTreeNode_def)

subsection \<open>What was read before the split is read after it\<close>

lemma reads_split:
  assumes r: "reads tx ns a p m"
    and an: "an < length ns" and nx: "lookup ns an c = Some nx"
    and al: "0 < al" "al < endpos (ns ! nx) - start (ns ! nx)"
    and len: "length ns' = length ns + 2"
    and tgt: "\<And>a x b. a < length ns \<Longrightarrow> lookup ns a x = Some b \<Longrightarrow> b < length ns"
    and one: "\<And>a x. a < length ns \<Longrightarrow> lookup ns a x = Some nx \<Longrightarrow> a = an \<and> x = c"
    and lk: "\<And>a x. a < length ns \<Longrightarrow> \<not> (a = an \<and> x = c) \<Longrightarrow> lookup ns' a x = lookup ns a x"
    and lk_an: "lookup ns' an c = Some (length ns)"
    and lk_sp: "lookup ns' (length ns) (tx ! nat (start (ns ! nx) + al)) = Some nx"
    and st: "\<And>b. b < length ns \<Longrightarrow> b \<noteq> nx \<Longrightarrow> start (ns' ! b) = start (ns ! b)"
    and en: "\<And>b. b < length ns \<Longrightarrow> endpos (ns' ! b) = endpos (ns ! b)"
    and st_nx: "start (ns' ! nx) = start (ns ! nx) + al"
    and sp: "start (ns' ! length ns) = start (ns ! nx)" "endpos (ns' ! length ns) = start (ns ! nx) + al"
  shows "reads tx ns' a p m"
  using r
proof (induction rule: reads.induct)
  case (reads_done m a p)
  then show ?case by (rule reads.reads_done)
next
  case (reads_part a p b m)
  let ?s = "start (ns ! nx)" and ?e = "endpos (ns ! nx)"
  from reads_part(1) len have a': "a < length ns'" by simp
  show ?case
  proof (cases "a = an \<and> tx ! nat p = c")
    case False
    with lk [OF reads_part(1)] reads_part(2) have l': "lookup ns' a (tx ! nat p) = Some b" by simp
    from False one [OF reads_part(1)] reads_part(2) have "b \<noteq> nx" by auto
    moreover from tgt [OF reads_part(1,2)] have "b < length ns" .
    ultimately have "start (ns' ! b) = start (ns ! b)" "endpos (ns' ! b) = endpos (ns ! b)"
      by (simp_all add: st en)
    with a' l' reads_part(3,4,5) show ?thesis
      by (intro reads.reads_part [of a ns' tx p b]) simp_all
  next
    case True
    with reads_part(2) nx have b: "b = nx" by simp
    from True lk_an have l': "lookup ns' a (tx ! nat p) = Some (length ns)" by simp
    show ?thesis
    proof (cases "m \<le> al")
      case True
      from reads_part(5) b have "agree tx (start (ns' ! length ns)) p m" by (simp add: sp)
      with a' l' reads_part(3) True show ?thesis
        by (intro reads.reads_part [of a ns' tx p "length ns"]) (simp_all add: sp)
    next
      case False
      from reads_part(5) b have ag: "agree tx ?s p m" by simp
      from ag False have 1: "agree tx (start (ns' ! length ns)) p al"
        by (simp add: sp agree_mono)
      from ag al(1) False have "tx ! nat (?s + al) = tx ! nat (p + al)"
        by (intro agreeD [of tx ?s p m]) simp_all
      with lk_sp have l2: "lookup ns' (length ns) (tx ! nat (p + al)) = Some nx" by simp
      from ag al(1) have "agree tx (?s + al) (p + al) (m - al)" by (intro agree_shift) simp_all
      then have ag2: "agree tx (start (ns' ! nx)) (p + al) (m - al)" by (simp add: st_nx)
      from tgt [OF an nx] have nxl: "nx < length ns" .
      from reads_part(4) b have "m - al \<le> endpos (ns' ! nx) - start (ns' ! nx)"
        by (simp add: st_nx en [OF nxl])
      with l2 ag2 False len have "reads tx ns' (length ns) (p + al) (m - al)"
        by (intro reads.reads_part [of "length ns" ns' tx "p + al" nx]) simp_all
      with a' l' 1 al(1) False show ?thesis
        by (intro reads.reads_full [of a ns' tx p "length ns"]) (simp_all add: sp)
    qed
  qed
next
  case (reads_full a p b m)
  let ?s = "start (ns ! nx)" and ?e = "endpos (ns ! nx)"
  from reads_full(1) len have a': "a < length ns'" by simp
  show ?case
  proof (cases "a = an \<and> tx ! nat p = c")
    case False
    with lk [OF reads_full(1)] reads_full(2) have l': "lookup ns' a (tx ! nat p) = Some b" by simp
    from False one [OF reads_full(1)] reads_full(2) have "b \<noteq> nx" by auto
    moreover from tgt [OF reads_full(1,2)] have "b < length ns" .
    ultimately have "start (ns' ! b) = start (ns ! b)" "endpos (ns' ! b) = endpos (ns ! b)"
      by (simp_all add: st en)
    with a' l' reads_full(3,4,5) reads_full.IH show ?thesis
      by (intro reads.reads_full [of a ns' tx p b]) simp_all
  next
    case True
    with reads_full(2) nx have b: "b = nx" by simp
    from True lk_an have l': "lookup ns' a (tx ! nat p) = Some (length ns)" by simp
    from reads_full(5) b have ag: "agree tx ?s p (?e - ?s)" by simp
    from ag al(2) have 1: "agree tx (start (ns' ! length ns)) p al"
      by (simp add: sp agree_mono)
    from ag al have "tx ! nat (?s + al) = tx ! nat (p + al)"
      by (intro agreeD [of tx ?s p "?e - ?s"]) simp_all
    with lk_sp have l2: "lookup ns' (length ns) (tx ! nat (p + al)) = Some nx" by simp
    from tgt [OF an nx] have nxl: "nx < length ns" .
    have el': "endpos (ns' ! nx) - start (ns' ! nx) = ?e - ?s - al"
      by (simp add: st_nx en [OF nxl])
    from ag al(1) have "agree tx (?s + al) (p + al) (?e - ?s - al)" by (intro agree_shift) simp_all
    then have ag2: "agree tx (start (ns' ! nx)) (p + al)
        (endpos (ns' ! nx) - start (ns' ! nx))" unfolding el' unfolding st_nx .
    have e1: "p + (?e - ?s) = p + al + (?e - ?s - al)" and e2: "m - (?e - ?s) = m - al - (?e - ?s - al)"
      by simp_all
    from reads_full.IH b have "reads tx ns' nx (p + (?e - ?s)) (m - (?e - ?s))" by simp
    then have "reads tx ns' nx (p + al + (?e - ?s - al)) (m - al - (?e - ?s - al))"
      unfolding e1 e2 .
    then have "reads tx ns' nx (p + al + (endpos (ns' ! nx) - start (ns' ! nx)))
        (m - al - (endpos (ns' ! nx) - start (ns' ! nx)))"
      unfolding el' .
    with l2 ag2 al(2) reads_full(4) b len have "reads tx ns' (length ns) (p + al) (m - al)"
      by (intro reads.reads_full [of "length ns" ns' tx "p + al" nx]) (simp_all add: el')
    with a' l' 1 al reads_full(4) b show ?thesis
      by (intro reads.reads_full [of a ns' tx p "length ns"]) (simp_all add: sp)
  qed
qed

lemma orphan_set_start: "orphan (set_start ns b s) x = orphan ns x"
  by (simp add: orphan_def set_start_simps)

lemma split_wf:
  assumes w: "wf_store tx d ns" and an: "an < length ns" and nx: "lookup ns an c = Some nx"
    and al: "0 < al" "al < endpos (ns ! nx) - start (ns ! nx)"
    and i: "0 \<le> i" "i < int (length tx)" and ci: "ci = tx ! nat i"
    and cn: "cn = tx ! nat (start (ns ! nx) + al)"
    and d': "d' = d(length ns := d an + al, Suc (length ns) := d an + al + (int (length tx) - i))"
  shows "wf_store tx d' (split_store ns an c nx al i (int (length tx)) ci cn)"
proof -
  let ?n = "int (length tx)" and ?len = "length ns"
  let ?s = "start (ns ! nx)" and ?e = "endpos (ns ! nx)"
  note wd = wf_storeD [OF w]
  note f = edge_facts [OF wd(3) an nx]
  from depth_nonneg [OF wd(2) an] have da: "0 \<le> d an" .
  from wd(2) have ne: "0 < ?len" by (simp add: depth_ok_def)
  define d1 where "d1 = d(?len := d an + al)"
  define ns1 where "ns1 = ns @ [SuffixTreeNode ?s (?s + al)]"
  define ns2 where "ns2 = set_child ns1 an c ?len"
  define ns3 where "ns3 = ns2 @ [SuffixTreeNode i ?n]"
  define ns4 where "ns4 = set_child ns3 ?len ci (Suc ?len)"
  define ns5 where "ns5 = set_start ns4 nx (?s + al)"
  define ns6 where "ns6 = set_child ns5 ?len cn nx"
  have l1: "length ns1 = Suc ?len" by (simp add: ns1_def)
  have l2: "length ns2 = Suc ?len" by (simp add: ns2_def set_child_simps l1)
  have l3: "length ns3 = Suc (Suc ?len)" by (simp add: ns3_def l2)
  have l4: "length ns4 = Suc (Suc ?len)" by (simp add: ns4_def set_child_simps l3)
  have l5: "length ns5 = Suc (Suc ?len)" by (simp add: ns5_def set_start_simps l4)
  have d2: "d' = d1(length ns2 := d an + al + (?n - i))" by (simp add: d' d1_def l2)
  from al(1) da have "0 < d an + al" by simp
  with w have w1: "wf_store tx d1 ns1" and o1: "orphan ns1 ?len"
    unfolding ns1_def d1_def by (rule wf_alloc(1), rule wf_alloc(2))
  from an have an1: "an < length ns1" by (simp add: l1)
  from an nx have lk1: "lookup ns1 an c = Some nx" by (simp add: ns1_def lookup_alloc)
  have e1: "edge_ok tx d1 ns1 an c ?len"
    using ne f(3,5,6) al an
    by (simp add: edge_ok_def ns1_def SuffixTreeNode_def d1_def)
  from w1 an1 o1 e1 have w2: "wf_store tx d1 ns2"
    unfolding ns2_def by (rule wf_set_child)
  from f(2) have nxl: "nx \<noteq> ?len" by simp
  from wf_storeD(4) [OF w1] an1 lk1 nxl have o2: "orphan ns2 nx"
    unfolding ns2_def by (rule orphan_replaced)
  from al(1) da i(2) have "0 < d an + al + (?n - i)" by simp
  with w2 have w3: "wf_store tx d' ns3" and o3: "orphan ns3 (length ns2)"
    unfolding ns3_def d2 by (rule wf_alloc(1), rule wf_alloc(2))
  from w2 \<open>0 < d an + al + (?n - i)\<close> o2 have o3': "orphan ns3 nx"
    unfolding ns3_def by (rule wf_alloc(3))
  have e3: "edge_ok tx d' ns3 ?len ci (Suc ?len)"
    using i ci by (simp add: edge_ok_def ns3_def l2 SuffixTreeNode_def d' nth_append)
  from o3 have o3s: "orphan ns3 (Suc ?len)" by (simp add: l2)
  have "?len < length ns3" by (simp add: l3)
  with w3 have w4: "wf_store tx d' ns4"
    unfolding ns4_def using o3s e3 by (rule wf_set_child)
  from f(2) have "nx \<noteq> Suc ?len" by simp
  with o3' have o4: "orphan ns4 nx"
    unfolding ns4_def using \<open>?len < length ns3\<close> by (rule orphan_set_child)
  from w4 o4 have w5: "wf_store tx d' ns5"
    unfolding ns5_def by (rule wf_set_start)
  from o4 have o5: "orphan ns5 nx" by (simp add: ns5_def orphan_set_start)
  have nx4: "nx < length ns4" using f(2) by (simp add: l4)
  have s5: "start (ns5 ! nx) = ?s + al"
    using nx4 by (simp add: ns5_def start_set_start)
  have e5n: "endpos (ns5 ! nx) = ?e"
    using f(2) by (simp add: ns5_def set_start_simps ns4_def set_child_simps ns3_def nth_append l2
        ns2_def ns1_def)
  have e5: "edge_ok tx d' ns5 ?len cn nx"
    using f(1,2,3,5,7) al cn
    by (simp add: edge_ok_def l5 s5 e5n d')
  have "?len < length ns5" by (simp add: l5)
  with w5 have "wf_store tx d' ns6"
    unfolding ns6_def using o5 e5 by (rule wf_set_child)
  moreover have "split_store ns an c nx al i ?n ci cn = ns6"
    by (simp add: split_store_def ns6_def ns5_def ns4_def ns3_def ns2_def ns1_def)
  ultimately show ?thesis by simp
qed

lemma split_step:
  assumes co: "core tx d i j st" and i: "i < int (length tx)"
    and alp: "0 < active_length st"
    and c: "c = tx ! nat (i - active_length st)"
    and nx: "lookup (nodes st) (active_node st) c = Some nx"
    and short: "active_length st < endpos (nodes st ! nx) - start (nodes st ! nx)"
    and ci: "ci = tx ! nat i"
    and diff: "tx ! nat (start (nodes st ! nx) + active_length st) \<noteq> tx ! nat i"
  shows "\<exists>st' d'. split_edge tx (int (length tx)) i c ci nx st = Inr st' \<and> mid_inv tx d' i j st' \<and>
           remainder st' = remainder st"
proof -
  let ?n = "int (length tx)"
  let ?ns = "nodes st" and ?an = "active_node st" and ?al = "active_length st"
  let ?len = "length (nodes st)"
  let ?s = "start (nodes st ! nx)" and ?e = "endpos (nodes st ! nx)"
  let ?cn = "tx ! nat (?s + ?al)"
  let ?ns6 = "split_store ?ns ?an c nx ?al i ?n ci ?cn"
  define ns7 where "ns7 = (case last_new_node st of None \<Rightarrow> ?ns6
      | Some l \<Rightarrow> set_suffix_link ?ns6 l ?len)"
  define st' where "st' = st\<lparr>nodes := ns7, last_new_node := Some ?len\<rparr>"
  define d' where "d' = d(?len := d ?an + ?al, Suc ?len := d ?an + ?al + (?n - i))"
  note cd = coreD [OF co]
  note t = tree_okD [OF cd(4)]
  note w = wf_storeD [OF t(1)]
  note ac = active_okD [OF cd(7)]
  note f = edge_facts [OF w(3) ac(1) nx]
  from w(2) have ne: "0 < ?len" by (simp add: depth_ok_def)
  from cd(1,2) have i0: "0 \<le> i" by simp
  from diff ci have cdiff: "?cn \<noteq> ci" by simp
  from ac(3) have pos: "i - ?al = j + d ?an" by simp
  from depth_nonneg [OF w(2) ac(1)] have da: "0 \<le> d ?an" .

  txt \<open>the text along the split edge\<close>
  from ac(6) alp c nx have "agree tx ?s (i - ?al) (min ?al (?e - ?s))"
    by (elim reads_step) simp_all
  with short have agE: "agree tx ?s (i - ?al) ?al" by (simp add: min_def)
  from t(2) ac(1) nx have "agree tx (head d ?ns nx) (head d ?ns ?an) (d ?an)"
    by (simp add: str_ok_def)
  with ac(4) have ag1: "agree tx (head d ?ns nx) j (d ?an)" by (rule agree_trans [rotated])
  from agE f(8) pos have "agree tx (head d ?ns nx + d ?an) (j + d ?an) ?al" by simp
  with ag1 have "agree tx (head d ?ns nx) j (d ?an + ?al)" by (rule agree_append)
  with ac(3) have agS: "agree tx (head d ?ns nx) j (i - j)" by (simp add: add.commute)

  txt \<open>the result of the call\<close>
  from f(3) alp have "0 \<le> ?s + ?al" by simp
  moreover from short f(5) have "?s + ?al < ?n" by simp
  ultimately have res: "split_edge tx ?n i c ci nx st = Inr st'"
    using f(2) by (simp add: split_edge_eq st'_def ns7_def Let_def)
  have len7: "length ns7 = ?len + 2"
    by (simp add: ns7_def split_store_length set_suffix_link_simps split: option.splits)
  have lk: "lookup ns7 a x =
     (if a = ?len then (if x = ?cn then Some nx else if x = ci then Some (Suc ?len) else None)
      else if a = Suc ?len then None
      else if a = ?an \<and> x = c then Some ?len
      else lookup ?ns a x)" if "a \<le> Suc ?len" for a x
    using that ac(1)
    by (simp add: ns7_def split_store_lookup set_suffix_link_simps split: option.splits)
  have st7: "start (ns7 ! v) =
     (if v = nx then ?s + ?al else if v = ?len then ?s else if v = Suc ?len then i else start (?ns ! v))"
    if "v \<le> Suc ?len" for v
    using that f(2)
    by (simp add: ns7_def split_store_start set_suffix_link_simps split: option.splits)
  have en7: "endpos (ns7 ! v) =
     (if v = ?len then ?s + ?al else if v = Suc ?len then ?n else endpos (?ns ! v))"
    if "v \<le> Suc ?len" for v
    using that
    by (simp add: ns7_def split_store_endpos set_suffix_link_simps split: option.splits)
  have pend_lt: "s < ?len" if "last_new_node st = Some s" for s
    using pending_okD(2) [OF cd(6) [OF that]] .
  have link7: "suffix_link (ns7 ! v) =
     (if last_new_node st = Some v then Some ?len
      else if v < ?len then suffix_link (?ns ! v) else None)" if "v \<le> Suc ?len" for v
  proof (cases "last_new_node st")
    case None
    with that show ?thesis by (simp add: ns7_def split_store_link)
  next
    case (Some s)
    from that have "v < length ?ns6" by (simp add: split_store_length)
    with Some that pend_lt [OF Some] show ?thesis
      by (auto simp: ns7_def set_suffix_link_link split_store_link)
  qed
  have d_old: "d' v = d v" if "v < ?len" for v using that by (simp add: d'_def)
  have d_sp: "d' ?len = i - j" using ac(3) by (simp add: d'_def add.commute)
  have d_lf: "d' (Suc ?len) = ?n - j" using ac(3) by (simp add: d'_def)
  have h_old: "head d' ns7 v = head d ?ns v" if "v < ?len" for v
    using that by (simp add: head_def en7 d_old)
  have h_sp: "head d' ns7 ?len = head d ?ns nx"
    using f(7) ac(3) by (simp add: head_def en7 d_sp)
  have h_lf: "head d' ns7 (Suc ?len) = j"
    by (simp add: head_def en7 d_lf)
  have leaf_old: "is_leaf tx ns7 v = is_leaf tx ?ns v" if "v < ?len" for v
    using that by (simp add: is_leaf_def en7)
  have leaf_sp: "\<not> is_leaf tx ns7 ?len"
    using short f(5) by (simp add: is_leaf_def en7)
  have leaf_lf: "is_leaf tx ns7 (Suc ?len)"
    by (simp add: is_leaf_def en7)
  have tgt: "b < ?len" "0 < b" if "a < ?len" "lookup ?ns a x = Some b" for a x b
    using edge_facts(1,2) [OF w(3) that] by simp_all
  have one: "a = ?an \<and> x = c" if "a < ?len" "lookup ?ns a x = Some nx" for a x
    using w(4) that ac(1) nx unfolding one_parent_def by blast
  have lk_old: "lookup ns7 a x = Some b" if "a < ?len" "lookup ?ns a x = Some b" "b \<noteq> nx" for a x b
  proof -
    from that nx have "\<not> (a = ?an \<and> x = c)" by auto
    with that lk [of a x] show ?thesis by simp
  qed

  txt \<open>the store\<close>
  have w6: "wf_store tx d' ?ns6"
    using t(1) ac(1) nx alp short i0 i ci refl d'_def by (rule split_wf)
  have w': "wf_store tx d' ns7"
  proof (cases "last_new_node st")
    case None
    with w6 show ?thesis by (simp add: ns7_def)
  next
    case (Some s)
    note p = pending_okD [OF cd(6) [OF Some]]
    have hs: "head d' ?ns6 s = head d ?ns s" and hl: "head d' ?ns6 ?len = head d ?ns nx"
      and el: "endpos (?ns6 ! ?len) = ?s + ?al"
      using p(2) f(7) ac(3)
      by (simp_all add: head_def split_store_endpos d'_def)
    from p(5) have "agree tx j (head d ?ns s + 1) (i - j)" by (rule agree_sym)
    with agS have ag: "agree tx (head d ?ns nx) (head d ?ns s + 1) (i - j)" by (rule agree_trans)
    have "link_ok tx d' ?ns6 s ?len"
      unfolding link_ok_def
    proof (intro conjI)
      show "?len < length ?ns6" by (simp add: split_store_length)
      show "d' ?len = d' s - 1" using p(2,4) by (simp add: d_sp d_old)
      show "agree tx (head d' ?ns6 ?len) (head d' ?ns6 s + 1) (d' ?len)"
        using ag by (simp add: hs hl d_sp)
      show "?len = 0 \<or> endpos (?ns6 ! ?len) < int (length tx)"
        using short f(5) by (simp add: el)
    qed
    moreover from p(2) have "s < length ?ns6" by (simp add: split_store_length)
    ultimately have "wf_store tx d' (set_suffix_link ?ns6 s ?len)"
      using w6 by (intro wf_set_suffix_link)
    with Some show ?thesis by (simp add: ns7_def)
  qed
  note w'D = wf_storeD [OF w']

  txt \<open>path labels\<close>
  have s': "str_ok tx d' ns7"
    unfolding str_ok_def
  proof (intro allI impI, elim conjE)
    fix a x b
    assume a: "a < length ns7" and l: "lookup ns7 a x = Some b"
    from a len7 have a': "a \<le> Suc ?len" by simp
    consider (sp) "a = ?len" | (lf) "a = Suc ?len" | (an) "a < ?len" "a = ?an \<and> x = c"
      | (old) "a < ?len" "\<not> (a = ?an \<and> x = c)"
      using a' by linarith
    then show "agree tx (head d' ns7 b) (head d' ns7 a) (d' a)"
    proof cases
      case sp
      with l lk [OF a'] have "b = nx \<or> b = Suc ?len" by (simp split: if_splits)
      then show ?thesis
      proof
        assume "b = nx"
        with sp f(2) show ?thesis by (simp add: h_sp h_old agree_refl)
      next
        assume "b = Suc ?len"
        with sp agS show ?thesis by (simp add: h_sp h_lf d_sp agree_sym)
      qed
    next
      case lf
      with l lk [OF a'] show ?thesis by simp
    next
      case an
      with l lk [OF a'] have b: "b = ?len" by simp
      from t(2) ac(1) nx have "agree tx (head d ?ns nx) (head d ?ns ?an) (d ?an)"
        by (simp add: str_ok_def)
      with an b show ?thesis by (simp add: h_sp h_old d_old)
    next
      case old
      with l lk [OF a'] have l': "lookup ?ns a x = Some b" by simp
      from tgt [OF old(1) l'] have b: "b < ?len" by simp
      from t(2) old(1) l' have "agree tx (head d ?ns b) (head d ?ns a) (d a)"
        by (simp add: str_ok_def)
      with old(1) b show ?thesis by (simp add: h_old d_old)
    qed
  qed
  have p': "parent_ok ns7"
    unfolding parent_ok_def
  proof (intro allI impI, elim conjE)
    fix v
    assume v: "0 < v" "v < length ns7"
    consider (lf) "v = Suc ?len" | (sp) "v = ?len" | (nx) "v = nx" | (old) "v < ?len" "v \<noteq> nx"
      using v len7 by linarith
    then show "\<exists>a x. a < length ns7 \<and> lookup ns7 a x = Some v"
    proof cases
      case lf
      from cdiff lk [of ?len ci] have "lookup ns7 ?len ci = Some (Suc ?len)" by simp
      with lf len7 show ?thesis by (intro exI [of _ ?len] exI [of _ ci]) simp
    next
      case sp
      from ac(1) lk [of ?an c] have "lookup ns7 ?an c = Some ?len" by simp
      with sp ac(1) len7 show ?thesis by (intro exI [of _ ?an] exI [of _ c]) simp
    next
      case nx
      from lk [of ?len ?cn] have "lookup ns7 ?len ?cn = Some nx" by simp
      with nx len7 show ?thesis by (intro exI [of _ ?len] exI [of _ ?cn]) simp
    next
      case old
      with t(3) v(1) obtain a x where a: "a < ?len" and l: "lookup ?ns a x = Some v"
        by (auto simp: parent_ok_def)
      from lk_old [OF a l old(2)] a len7 show ?thesis by (intro exI [of _ a] exI [of _ x]) simp
    qed
  qed
  have n': "nodes_ok tx d' ns7 (j + 1)"
    unfolding nodes_ok_def
  proof (intro allI impI, elim conjE)
    fix v
    assume v: "0 < v" "v < length ns7"
    note hn = nodes_okD [OF t(4) f(1,2)]
    consider (lf) "v = Suc ?len" | (sp) "v = ?len" | (old) "v < ?len"
      using v len7 by linarith
    then show "0 \<le> head d' ns7 v \<and> head d' ns7 v < j + 1 \<and> endpos (ns7 ! v) \<le> int (length tx)"
    proof cases
      case lf
      with cd(1) show ?thesis by (simp add: h_lf en7)
    next
      case sp
      with hn short f(5) show ?thesis by (simp add: h_sp en7)
    next
      case old
      from nodes_okD [OF t(4) v(1) old] old show ?thesis by (simp add: h_old en7)
    qed
  qed

  txt \<open>the suffixes\<close>
  have keep: "reads tx ns7 a p m" if "reads tx ?ns a p m" for a p m
    using that ac(1) nx alp short
  proof (rule reads_split)
    show "length ns7 = ?len + 2" by (rule len7)
    show "\<And>a x b. a < ?len \<Longrightarrow> lookup ?ns a x = Some b \<Longrightarrow> b < ?len" by (rule tgt(1))
    show "\<And>a x. a < ?len \<Longrightarrow> lookup ?ns a x = Some nx \<Longrightarrow> a = ?an \<and> x = c" by (rule one)
    show "\<And>a x. a < ?len \<Longrightarrow> \<not> (a = ?an \<and> x = c) \<Longrightarrow> lookup ns7 a x = lookup ?ns a x"
    proof -
      fix a x
      assume "a < ?len" "\<not> (a = ?an \<and> x = c)"
      with lk [of a x] show "lookup ns7 a x = lookup ?ns a x" by simp
    qed
    show "lookup ns7 ?an c = Some ?len" using ac(1) lk [of ?an c] by simp
    show "lookup ns7 ?len ?cn = Some nx" using lk [of ?len ?cn] by simp
    show "\<And>b. b < ?len \<Longrightarrow> b \<noteq> nx \<Longrightarrow> start (ns7 ! b) = start (?ns ! b)" by (simp add: st7)
    show "\<And>b. b < ?len \<Longrightarrow> endpos (ns7 ! b) = endpos (?ns ! b)" by (simp add: en7)
    show "start (ns7 ! nx) = ?s + ?al" using f(2) by (simp add: st7)
    show "start (ns7 ! ?len) = ?s" using f(2) by (simp add: st7)
    show "endpos (ns7 ! ?len) = ?s + ?al" by (simp add: en7)
  qed
  have rd_new: "reads tx ns7 0 j (?n - j)"
  proof -
    have sp': "?len < length ns7" using len7 by simp
    from agS have ag: "agree tx (head d' ns7 ?len) j (d' ?len)" by (simp add: h_sp d_sp)
    from cdiff lk [of ?len ci] ci have l: "lookup ns7 ?len (tx ! nat i) = Some (Suc ?len)" by simp
    have stl: "start (ns7 ! Suc ?len) = i" and enl: "endpos (ns7 ! Suc ?len) = ?n"
      using f(2) by (simp_all add: st7 en7)
    from sp' l i have "reads tx ns7 ?len i (?n - i)"
      by (intro reads_part [of ?len ns7 tx i "Suc ?len"]) (simp_all add: stl enl agree_refl)
    then have "reads tx ns7 ?len (j + d' ?len) (?n - i)" by (simp add: d_sp)
    moreover from i have "0 \<le> ?n - i" by simp
    ultimately have "reads tx ns7 0 j (d' ?len + (?n - i))"
      using w'D(3) s' p' w'D(2) sp' ag by (intro ascend [of tx d' ns7 ?len j "?n - i"])
    then show ?thesis by (simp add: d_sp)
  qed
  have su': "suffixes_ok tx ns7 (j + 1)"
    unfolding suffixes_ok_def
  proof (intro allI impI, elim conjE)
    fix k :: int
    assume k: "0 \<le> k" "k < j + 1"
    show "reads tx ns7 0 k (int (length tx) - k)"
    proof (cases "k = j")
      case True
      with rd_new show ?thesis by simp
    next
      case False
      with k have "k < j" by simp
      with t(5) k(1) have "reads tx ?ns 0 k (int (length tx) - k)" by (simp add: suffixes_ok_def)
      then show ?thesis by (rule keep)
    qed
  qed

  txt \<open>the leaves\<close>
  from t(6) have lv1: "\<And>v. 0 < v \<Longrightarrow> v < ?len \<Longrightarrow> is_leaf tx ?ns v = (\<forall>x. lookup ?ns v x = None)"
    and lv2: "\<And>k. 0 \<le> k \<Longrightarrow> k < j \<Longrightarrow> \<exists>v. 0 < v \<and> v < ?len \<and> is_leaf tx ?ns v \<and> head d ?ns v = k"
    and lv3: "\<And>v v'. 0 < v \<Longrightarrow> v < ?len \<Longrightarrow> 0 < v' \<Longrightarrow> v' < ?len \<Longrightarrow> is_leaf tx ?ns v \<Longrightarrow>
       is_leaf tx ?ns v' \<Longrightarrow> head d ?ns v = head d ?ns v' \<Longrightarrow> v = v'"
    by (simp_all add: leaves_ok_def)
  have l1: "is_leaf tx ns7 v = (\<forall>x. lookup ns7 v x = None)" if v: "0 < v" "v < length ns7" for v
  proof -
    consider (lf) "v = Suc ?len" | (sp) "v = ?len" | (an) "v < ?len" "v = ?an"
      | (old) "v < ?len" "v \<noteq> ?an"
      using v len7 by linarith
    then show ?thesis
    proof cases
      case lf
      with lk [of "Suc ?len"] leaf_lf show ?thesis by simp
    next
      case sp
      from lk [of ?len ?cn] have "lookup ns7 ?len ?cn = Some nx" by simp
      with sp leaf_sp show ?thesis by auto
    next
      case an
      with v(1) ac(5) have "\<not> is_leaf tx ?ns ?an" by simp
      moreover from ac(1) lk [of ?an c] have "lookup ns7 ?an c = Some ?len" by simp
      ultimately show ?thesis using an by (auto simp: leaf_old)
    next
      case old
      with lk [of v] have "lookup ns7 v x = lookup ?ns v x" for x by simp
      with lv1 [OF v(1) old(1)] old(1) show ?thesis by (simp add: leaf_old)
    qed
  qed
  have l2: "\<exists>v. 0 < v \<and> v < length ns7 \<and> is_leaf tx ns7 v \<and> head d' ns7 v = k"
    if k: "0 \<le> k" "k < j + 1" for k
  proof (cases "k = j")
    case True
    with len7 leaf_lf h_lf show ?thesis by (intro exI [of _ "Suc ?len"]) simp
  next
    case False
    with k have "k < j" by simp
    from lv2 [OF k(1) this] obtain v where "0 < v" "v < ?len" "is_leaf tx ?ns v" "head d ?ns v = k"
      by blast
    with len7 show ?thesis by (intro exI [of _ v]) (simp add: leaf_old h_old)
  qed
  have l3: "v = v'" if v: "0 < v" "v < length ns7" "0 < v'" "v' < length ns7"
    "is_leaf tx ns7 v" "is_leaf tx ns7 v'" "head d' ns7 v = head d' ns7 v'" for v v'
  proof -
    have neq: "head d' ns7 u \<noteq> j" if "0 < u" "u < ?len" for u
      using nodes_okD(2) [OF t(4) that] that by (simp add: h_old)
    have cases: "u = Suc ?len \<or> u < ?len" if "u < length ns7" "is_leaf tx ns7 u" for u
    proof -
      from that(2) leaf_sp have "u \<noteq> ?len" by auto
      with that(1) len7 show ?thesis by linarith
    qed
    from cases [OF v(2,5)] cases [OF v(4,6)] show ?thesis
    proof (elim disjE)
      assume "v = Suc ?len" "v' = Suc ?len"
      then show ?thesis by simp
    next
      assume "v = Suc ?len" "v' < ?len"
      with neq [OF v(3)] v(7) h_lf show ?thesis by simp
    next
      assume "v < ?len" "v' = Suc ?len"
      with neq [OF v(1)] v(7) h_lf show ?thesis by simp
    next
      assume a: "v < ?len" "v' < ?len"
      with v show ?thesis by (intro lv3) (simp_all add: leaf_old h_old)
    qed
  qed
  from l1 l2 l3 have le': "leaves_ok tx d' ns7 (j + 1)"
    unfolding leaves_ok_def by blast

  txt \<open>the suffix links\<close>
  have li': "linked_ok tx ns7 (Some ?len)"
    unfolding linked_ok_def
  proof (intro allI impI, elim conjE)
    fix v
    assume v: "0 < v" "v < length ns7" "\<not> is_leaf tx ns7 v"
    from v(3) leaf_lf have "v \<noteq> Suc ?len" by auto
    with v len7 have v': "v \<le> ?len" by simp
    show "suffix_link (ns7 ! v) \<noteq> None \<or> Some ?len = Some v"
    proof (cases "v = ?len")
      case False
      with v' have v'': "v < ?len" by simp
      with v(3) have "\<not> is_leaf tx ?ns v" by (simp add: leaf_old)
      with cd(5) v(1) v'' have "suffix_link (?ns ! v) \<noteq> None \<or> last_new_node st = Some v"
        by (simp add: linked_ok_def)
      with v'' link7 [of v] show ?thesis by auto
    qed simp
  qed
  have pe': "pending_ok tx d' ns7 i (j + 1) ?len"
    unfolding pending_ok_def
  proof (intro conjI)
    show "0 < ?len" by (rule ne)
    show "?len < length ns7" using len7 by simp
    show "\<not> is_leaf tx ns7 ?len" by (rule leaf_sp)
    show "d' ?len = i - (j + 1) + 1" by (simp add: d_sp)
    from agS have "agree tx (head d ?ns nx + 1) (j + 1) (i - j - 1)"
      by (intro agree_shift) simp_all
    then show "agree tx (head d' ns7 ?len + 1) (j + 1) (i - (j + 1))"
      by (simp add: h_sp algebra_simps)
    from nodes_okD(2) [OF t(4) f(1,2)] show "head d' ns7 ?len + 1 < j + 1" by (simp add: h_sp)
    from f(8) ac(3) have "head d ?ns nx + (i - j) = ?s + ?al" by simp
    with diff show "tx ! nat (head d' ns7 ?len + d' ?len) \<noteq> tx ! nat i"
      by (simp add: h_sp d_sp)
  qed

  from w' s' p' n' su' le' have "tree_ok tx d' ns7 (j + 1)" by (simp add: tree_ok_def)
  moreover from ac(1) len7 have "?an < length ns7" by simp
  moreover from ac(4) ac(1) have "agree tx (head d' ns7 ?an) j (d' ?an)" by (simp add: h_old d_old)
  moreover from ac(5) ac(1) have "?an = 0 \<or> \<not> is_leaf tx ns7 ?an" by (auto simp: leaf_old)
  moreover from ac(3) ac(1) have "?al + d' ?an = i - j" by (simp add: d_old)
  ultimately have "mid_inv tx d' i j st'"
    using cd(1,2) i li' pe' alp ac(7) by (simp add: mid_inv_def st'_def)
  moreover have "remainder st' = remainder st" by (simp add: st'_def)
  ultimately show ?thesis using res by blast
qed

lemma mid_invD:
  assumes "mid_inv tx d i j st"
  shows "0 \<le> j" "j \<le> i" "i < int (length tx)" "tree_ok tx d (nodes st) (j + 1)"
    "linked_ok tx (nodes st) (last_new_node st)"
    "\<And>s. last_new_node st = Some s \<Longrightarrow> pending_ok tx d (nodes st) i (j + 1) s"
    "0 < active_length st \<Longrightarrow> last_new_node st \<noteq> None"
    "last_new_node st \<noteq> None \<Longrightarrow> 0 < active_length st"
    "active_node st < length (nodes st)" "0 \<le> active_length st"
    "active_length st + d (active_node st) = i - j"
    "agree tx (head d (nodes st) (active_node st)) j (d (active_node st))"
    "active_node st = 0 \<or> \<not> is_leaf tx (nodes st) (active_node st)"
    "0 < active_length st \<Longrightarrow> active_edge st = i - active_length st"
  using assms by (simp_all add: mid_inv_def)

lemma root_no_link:
  assumes "wf_store tx d ns"
  shows "suffix_link (ns ! 0) = None"
proof (cases "suffix_link (ns ! 0)")
  case (Some l)
  note w = wf_storeD [OF assms]
  from w(2) have ne: "0 < length ns" and d0: "d 0 = 0" by (simp_all add: depth_ok_def)
  with w(5) Some have "link_ok tx d ns 0 l" by (simp add: links_ok_def)
  then have "l < length ns" "d l = d 0 - 1" by (simp_all add: link_ok_def)
  with depth_nonneg [OF w(2), of l] d0 show ?thesis by simp
qed simp

lemma next_suffix_fields:
  "nodes (next_suffix i st) = nodes st"
  "last_new_node (next_suffix i st) = last_new_node st"
  "remainder (next_suffix i st) = remainder st - 1"
  by (simp_all add: next_suffix_def Let_def)

lemma next_suffix_step:
  assumes m: "mid_inv tx d i j st" and r: "remainder st = i - j + 1"
  shows "(j < i \<longrightarrow> loop_inv tx d i (next_suffix i st)) \<and>
         (\<not> j < i \<longrightarrow> phase_inv tx d (i + 1) (next_suffix i st) \<and> remainder (next_suffix i st) = 0)"
proof -
  let ?ns = "nodes st" and ?an = "active_node st" and ?al = "active_length st"
  let ?st' = "next_suffix i st"
  note md = mid_invD [OF m]
  note t = tree_okD [OF md(4)]
  note w = wf_storeD [OF t(1)]
  from w(2) have d0: "d 0 = 0" and ne: "0 < length ?ns" by (simp_all add: depth_ok_def)
  have rem': "remainder ?st' = i - j" using r by (simp add: next_suffix_fields)
  have R: "reads tx ?ns 0 (j + 1) (i - j - 1)" if alp: "0 < ?al"
  proof -
    from md(7) [OF alp] obtain s where s: "last_new_node st = Some s" by blast
    note p = pending_okD [OF md(6) [OF s]]
    from nodes_okD(1) [OF t(4) p(1,2)] have h0: "0 \<le> head d ?ns s + 1" by simp
    with t(5) p(6) have "reads tx ?ns 0 (head d ?ns s + 1) (int (length tx) - (head d ?ns s + 1))"
      by (simp add: suffixes_ok_def)
    moreover from p(6) md(3) have "i - j - 1 \<le> int (length tx) - (head d ?ns s + 1)" by simp
    ultimately have "reads tx ?ns 0 (head d ?ns s + 1) (i - j - 1)" by (rule reads_prefix)
    moreover from p(5) have "agree tx (head d ?ns s + 1) (j + 1) (i - j - 1)"
      by (simp add: algebra_simps)
    ultimately show ?thesis by (rule reads_agree)
  qed
  have tail: "loop_inv tx d i ?st'" if j: "j < i" and a: "active_ok tx d ?ns i (j + 1) ?st'"
  proof -
    have e: "i - remainder ?st' + 1 = j + 1" using rem' by simp
    from j md(1) md(3) md(4) md(5) md(6) a have "core tx d i (j + 1) ?st'"
      by (simp add: core_def next_suffix_fields)
    with j md(3) rem' show ?thesis unfolding loop_inv_def e by simp
  qed
  consider (A) "?an = 0" "0 < ?al" | (B1) "?an = 0" "?al = 0" | (B2) "?an \<noteq> 0"
    using md(10) by fastforce
  then show ?thesis
  proof cases
    case A
    from A md(11) d0 have al: "?al = i - j" by simp
    with A have j: "j < i" by simp
    have f: "active_node ?st' = 0" "active_length ?st' = i - j - 1" "active_edge ?st' = j + 1"
      using A al r by (simp_all add: next_suffix_def Let_def root_def)
    have "active_ok tx d ?ns i (j + 1) ?st'"
      unfolding active_ok_def f
    proof (intro conjI)
      show "0 < length ?ns" by (rule ne)
      show "0 \<le> i - j - 1" using j by simp
      show "i - j - 1 + d 0 = i - (j + 1)" using d0 by simp
      show "agree tx (head d ?ns 0) (j + 1) (d 0)" using d0 by (simp add: agree_empty)
      show "0 = 0 \<or> \<not> is_leaf tx ?ns 0" by simp
      from R [OF A(2)] show "reads tx ?ns 0 (i - (i - j - 1)) (i - j - 1)" by simp
      show "0 < i - j - 1 \<longrightarrow> j + 1 = i - (i - j - 1)" by simp
    qed
    with j tail show ?thesis by simp
  next
    case B1
    from B1 md(11) d0 have j: "j = i" by simp
    have ln: "last_new_node st = None"
    proof (rule ccontr)
      assume "last_new_node st \<noteq> None"
      from md(8) [OF this] B1 show False by simp
    qed
    have f: "active_node ?st' = 0" "active_length ?st' = 0"
      using B1 root_no_link [OF t(1)] by (simp_all add: next_suffix_def Let_def root_def)
    have "active_ok tx d ?ns (i + 1) (i + 1) ?st'"
      unfolding active_ok_def f using ne d0 by (simp add: agree_empty reads_done)
    with j md(1) md(3) md(4) md(5) ln have "core tx d (i + 1) (i + 1) ?st'"
      by (simp add: core_def next_suffix_fields)
    with j rem' ln show ?thesis by (simp add: phase_inv_def next_suffix_fields)
  next
    case B2
    with w(2) md(9) have dan: "0 < d ?an" by (simp add: depth_ok_def)
    with md(10,11) have j: "j < i" by simp
    from B2 md(13) have nl: "\<not> is_leaf tx ?ns ?an" by simp
    have "last_new_node st \<noteq> Some ?an"
    proof
      assume s: "last_new_node st = Some ?an"
      from pending_okD(4) [OF md(6) [OF s]] md(11) have "?al = 0" by simp
      with md(8) s show False by simp
    qed
    with md(5) B2 md(9) nl obtain l where l: "suffix_link (?ns ! ?an) = Some l"
      by (auto simp: linked_ok_def)
    with w(5) md(9) have "link_ok tx d ?ns ?an l" by (simp add: links_ok_def)
    then have lo: "l < length ?ns" "d l = d ?an - 1"
      "agree tx (head d ?ns l) (head d ?ns ?an + 1) (d l)" "l = 0 \<or> endpos (?ns ! l) < int (length tx)"
      unfolding link_ok_def by blast+
    have f: "active_node ?st' = l" "active_length ?st' = ?al" "active_edge ?st' = active_edge st"
      using B2 l by (simp_all add: next_suffix_def Let_def root_def)
    from md(12) have "agree tx (head d ?ns ?an + 1) (j + 1) (d ?an - 1)"
      by (rule agree_shift) simp
    with lo(2) have "agree tx (head d ?ns ?an + 1) (j + 1) (d l)" by simp
    with lo(3) have agl: "agree tx (head d ?ns l) (j + 1) (d l)" by (rule agree_trans)
    have "active_ok tx d ?ns i (j + 1) ?st'"
      unfolding active_ok_def f
    proof (intro conjI)
      show "l < length ?ns" by (rule lo(1))
      show "0 \<le> ?al" by (rule md(10))
      show "?al + d l = i - (j + 1)" using lo(2) md(11) by simp
      show "agree tx (head d ?ns l) (j + 1) (d l)" by (rule agl)
      show "l = 0 \<or> \<not> is_leaf tx ?ns l" using lo(4) by (auto simp: is_leaf_def)
      show "reads tx ?ns l (i - ?al) ?al"
      proof (cases "0 < ?al")
        case False
        then show ?thesis by (simp add: reads_done)
      next
        case True
        from lo(2) md(11) md(10) have le: "d l \<le> i - j - 1" by simp
        from descend [OF w(3) t(2) t(3) w(2) R [OF True] lo(1) agl le]
        have "reads tx ?ns l (j + 1 + d l) (i - j - 1 - d l)" .
        moreover from lo(2) md(11) have "j + 1 + d l = i - ?al" "i - j - 1 - d l = ?al" by simp_all
        ultimately show ?thesis by simp
      qed
      show "0 < ?al \<longrightarrow> active_edge st = i - ?al" using md(14) by simp
    qed
    with j tail show ?thesis by simp
  qed
qed

subsection \<open>A suffix link set on a tree\<close>

lemma reads_set_suffix_link:
  "reads tx (set_suffix_link ns l t) a p m = reads tx ns a p m"
proof
  assume "reads tx (set_suffix_link ns l t) a p m"
  then show "reads tx ns a p m"
    by (rule reads_mono) (simp_all add: set_suffix_link_simps)
next
  assume "reads tx ns a p m"
  then show "reads tx (set_suffix_link ns l t) a p m"
    by (rule reads_mono) (simp_all add: set_suffix_link_simps)
qed

lemma is_leaf_set_suffix_link: "is_leaf tx (set_suffix_link ns l t) v = is_leaf tx ns v"
  by (simp add: is_leaf_def set_suffix_link_simps)

lemma tree_ok_set_suffix_link:
  assumes "tree_ok tx d ns j" and "l < length ns" and "link_ok tx d ns l t"
  shows "tree_ok tx d (set_suffix_link ns l t) j"
proof -
  note t = tree_okD [OF assms(1)]
  from t(1) assms(2,3) have "wf_store tx d (set_suffix_link ns l t)" by (rule wf_set_suffix_link)
  moreover from t(2) have "str_ok tx d (set_suffix_link ns l t)"
    by (simp add: str_ok_def set_suffix_link_simps head_set_suffix_link)
  moreover from t(3) have "parent_ok (set_suffix_link ns l t)"
    by (simp add: parent_ok_def set_suffix_link_simps)
  moreover from t(4) have "nodes_ok tx d (set_suffix_link ns l t) j"
    by (simp add: nodes_ok_def set_suffix_link_simps head_set_suffix_link)
  moreover from t(5) have "suffixes_ok tx (set_suffix_link ns l t) j"
    by (simp add: suffixes_ok_def reads_set_suffix_link)
  moreover from t(6) have "leaves_ok tx d (set_suffix_link ns l t) j"
    by (simp add: leaves_ok_def set_suffix_link_simps head_set_suffix_link is_leaf_set_suffix_link)
  ultimately show ?thesis by (simp add: tree_ok_def)
qed

subsection \<open>The walk down an edge\<close>

lemma walk_step:
  assumes co: "core tx d i j st" and i: "i < int (length tx)"
    and nx: "lookup (nodes st) (active_node st) (tx ! nat (i - active_length st)) = Some nx"
    and el: "el = endpos (nodes st ! nx) - start (nodes st ! nx)"
    and le: "el \<le> active_length st"
  shows "core tx d i j (st\<lparr>active_edge := active_edge st + el,
           active_length := active_length st - el, active_node := nx\<rparr>)"
    and "0 < el"
proof -
  let ?ns = "nodes st" and ?an = "active_node st" and ?al = "active_length st"
  let ?st' = "st\<lparr>active_edge := active_edge st + el, active_length := ?al - el, active_node := nx\<rparr>"
  note cd = coreD [OF co]
  note t = tree_okD [OF cd(4)]
  note w = wf_storeD [OF t(1)]
  note ac = active_okD [OF cd(7)]
  note f = edge_facts [OF w(3) ac(1) nx]
  from f(4) el show elp: "0 < el" by simp
  with le have alp: "0 < ?al" by simp
  from ac(3) have pos: "i - ?al = j + d ?an" by simp
  from ac(6) alp nx have "agree tx (start (?ns ! nx)) (i - ?al) (min ?al el)"
    unfolding el by (elim reads_step) simp_all
  with le have "agree tx (start (?ns ! nx)) (i - ?al) el" by (simp add: min_absorb2)
  with f(8) pos have a2: "agree tx (head d ?ns nx + d ?an) (j + d ?an) el" by simp
  from t(2) ac(1) nx have "agree tx (head d ?ns nx) (head d ?ns ?an) (d ?an)"
    by (simp add: str_ok_def)
  with ac(4) have "agree tx (head d ?ns nx) j (d ?an)" by (rule agree_trans [rotated])
  from this a2 have "agree tx (head d ?ns nx) j (d ?an + el)" by (rule agree_append)
  with f(7) el have ag: "agree tx (head d ?ns nx) j (d nx)" by simp
  have nl: "\<not> is_leaf tx ?ns nx"
  proof
    assume "is_leaf tx ?ns nx"
    then have "head d ?ns nx + d nx = int (length tx)" by (simp add: is_leaf_def head_def)
    with nodes_okD(2) [OF t(4) f(1,2)] f(7) el le ac(3) i show False by simp
  qed
  from ac(6) nx elp le have "reads tx ?ns nx (i - ?al + el) (?al - el)"
    unfolding el by (rule reads_child)
  then have rd: "reads tx ?ns nx (i - (?al - el)) (?al - el)" by (simp add: algebra_simps)
  have "active_ok tx d ?ns i j ?st'"
    unfolding active_ok_def
  proof (intro conjI)
    show "active_node ?st' < length ?ns" using f(2) by simp
    show "0 \<le> active_length ?st'" using le by simp
    show "active_length ?st' + d (active_node ?st') = i - j" using f(7) el ac(3) by simp
    show "agree tx (head d ?ns (active_node ?st')) j (d (active_node ?st'))" using ag by simp
    show "active_node ?st' = 0 \<or> \<not> is_leaf tx ?ns (active_node ?st')" using nl by simp
    show "reads tx ?ns (active_node ?st') (i - active_length ?st') (active_length ?st')"
      using rd by simp
    show "0 < active_length ?st' \<longrightarrow> active_edge ?st' = i - active_length ?st'"
      using ac(7) [OF alp] by simp
  qed
  with cd show "core tx d i j ?st'" by (simp add: core_def)
qed

subsection \<open>The symbol is already on the edge\<close>

lemma rule3_step:
  assumes co: "core tx d i j st" and i: "i < int (length tx)"
    and ae: "active_edge st = i - active_length st"
    and nx: "lookup (nodes st) (active_node st) (tx ! nat (i - active_length st)) = Some nx"
    and short: "active_length st < endpos (nodes st ! nx) - start (nodes st ! nx)"
    and same: "tx ! nat (start (nodes st ! nx) + active_length st) = tx ! nat i"
  shows "core tx d (i + 1) j (rule3 st)" and "last_new_node (rule3 st) = None"
    and "remainder (rule3 st) = remainder st"
    and "\<exists>q. 0 \<le> q \<and> q < i \<and> tx ! nat q = tx ! nat i"
proof -
  let ?ns = "nodes st" and ?an = "active_node st" and ?al = "active_length st"
  let ?s = "start (nodes st ! nx)" and ?e = "endpos (nodes st ! nx)"
  let ?st' = "rule3 st"
  note cd = coreD [OF co]
  note t = tree_okD [OF cd(4)]
  note w = wf_storeD [OF t(1)]
  note ac = active_okD [OF cd(7)]
  note f = edge_facts [OF w(3) ac(1) nx]
  from ac(3) have pos: "i - ?al = j + d ?an" by simp
  from depth_nonneg [OF w(2) ac(1)] have da: "0 \<le> d ?an" .
  note hn = nodes_okD [OF t(4) f(1,2)]
  show "last_new_node ?st' = None" by (simp add: rule3_def Let_def split: option.splits)
  show "remainder ?st' = remainder st" by (simp add: rule3_def Let_def split: option.splits)
  have "0 \<le> ?s + ?al" using f(3) ac(2) by simp
  moreover from f(8) ac(3) hn(2) have "?s + ?al < i" by simp
  ultimately show "\<exists>q. 0 \<le> q \<and> q < i \<and> tx ! nat q = tx ! nat i" using same by blast
  have agE: "agree tx ?s (i - ?al) ?al"
  proof (cases "0 < ?al")
    case True
    with ac(6) nx have "agree tx ?s (i - ?al) (min ?al (?e - ?s))"
      by (elim reads_step) simp_all
    with short show ?thesis by (simp add: min_def)
  next
    case False
    then show ?thesis by (simp add: agree_empty)
  qed
  have "agree tx (?s + ?al) (i - ?al + ?al) 1"
  proof (rule agreeI)
    fix k :: int
    assume "0 \<le> k" "k < 1"
    then have "k = 0" by simp
    with same show "tx ! nat (?s + ?al + k) = tx ! nat (i - ?al + ?al + k)" by simp
  qed
  with agE have agE1: "agree tx ?s (i - ?al) (?al + 1)" by (rule agree_append)
  have fields: "active_node ?st' = ?an" "active_length ?st' = ?al + 1" "active_edge ?st' = active_edge st"
    by (simp_all add: rule3_def Let_def split: option.splits)
  have nodes': "nodes ?st' = (case last_new_node st of None \<Rightarrow> ?ns | Some s \<Rightarrow> set_suffix_link ?ns s ?an)"
    by (simp add: rule3_def Let_def link_pending_def split: option.splits)
  have len': "length (nodes ?st') = length ?ns"
    by (simp add: nodes' set_suffix_link_simps split: option.splits)
  have lk': "lookup (nodes ?st') a x = lookup ?ns a x" for a x
    by (simp add: nodes' set_suffix_link_simps split: option.splits)
  have se': "start (nodes ?st' ! v) = start (?ns ! v)" "endpos (nodes ?st' ! v) = endpos (?ns ! v)" for v
    by (simp_all add: nodes' set_suffix_link_simps split: option.splits)
  have h': "head d (nodes ?st') v = head d ?ns v" for v
    by (simp add: head_def se')
  have leaf': "is_leaf tx (nodes ?st') v = is_leaf tx ?ns v" for v
    by (simp add: is_leaf_def se')
  have rd': "reads tx (nodes ?st') a p m = reads tx ?ns a p m" for a p m
    by (simp add: nodes' reads_set_suffix_link split: option.splits)
  have tl: "tree_ok tx d (nodes ?st') j \<and> linked_ok tx (nodes ?st') None"
  proof (cases "last_new_node st")
    case None
    with cd(4,5) show ?thesis by (simp add: nodes')
  next
    case (Some s)
    note p = pending_okD [OF cd(6) [OF Some]]
    from nodes_okD(1) [OF t(4) p(1,2)] have k0: "0 \<le> head d ?ns s + 1" by simp
    let ?k = "head d ?ns s + 1"
    have al0: "?al = 0"
    proof (rule ccontr)
      assume "?al \<noteq> 0"
      with ac(2) have alp: "0 < ?al" by simp
      from t(5) k0 p(6) have r0: "reads tx ?ns 0 ?k (int (length tx) - ?k)"
        by (simp add: suffixes_ok_def)
      from p(5) have agkj: "agree tx ?k j (i - j)" .
      from ac(4) have "agree tx (head d ?ns ?an) j (d ?an)" .
      moreover have "agree tx j ?k (d ?an)"
      proof (rule agree_sym)
        from ac(2,3) have "d ?an \<le> i - j" by simp
        with agkj show "agree tx ?k j (d ?an)" by (rule agree_mono)
      qed
      ultimately have agan: "agree tx (head d ?ns ?an) ?k (d ?an)" by (rule agree_trans)
      from ac(2,3) p(6) cd(2) i have dle: "d ?an \<le> int (length tx) - ?k" by simp
      from descend [OF w(3) t(2) t(3) w(2) r0 ac(1) agan dle]
      have r1: "reads tx ?ns ?an (?k + d ?an) (int (length tx) - ?k - d ?an)" .
      from ac(3) p(6) i have big: "?al < int (length tx) - ?k - d ?an" by simp
      with alp have mp: "0 < int (length tx) - ?k - d ?an" by simp
      from agreeD [OF agkj da] alp ac(3) have "tx ! nat (?k + d ?an) = tx ! nat (j + d ?an)" by simp
      with pos have ceq: "tx ! nat (?k + d ?an) = tx ! nat (i - ?al)" by simp
      from r1 mp obtain b where b: "lookup ?ns ?an (tx ! nat (?k + d ?an)) = Some b"
        and agb: "agree tx (start (?ns ! b)) (?k + d ?an)
           (min (int (length tx) - ?k - d ?an) (endpos (?ns ! b) - start (?ns ! b)))"
        by (rule reads_step) blast
      from b ceq nx have bnx: "b = nx" by simp
      from big short have "?al < min (int (length tx) - ?k - d ?an) (?e - ?s)" by simp
      from agreeD [OF agb [unfolded bnx] ac(2) this]
      have "tx ! nat (?s + ?al) = tx ! nat (?k + d ?an + ?al)" .
      moreover from ac(3) p(4) have "?k + d ?an + ?al = head d ?ns s + d s" by simp
      ultimately have "tx ! nat (?s + ?al) = tx ! nat (head d ?ns s + d s)" by simp
      with same p(7) show False by simp
    qed
    with ac(3) have dan: "d ?an = i - j" by simp
    have lo: "link_ok tx d ?ns s ?an"
      unfolding link_ok_def
    proof (intro conjI)
      show "?an < length ?ns" by (rule ac(1))
      show "d ?an = d s - 1" using dan p(4) by simp
      from p(5) have "agree tx j (head d ?ns s + 1) (i - j)" by (rule agree_sym)
      with ac(4) dan show "agree tx (head d ?ns ?an) (head d ?ns s + 1) (d ?an)"
        by (simp add: agree_trans)
      show "?an = 0 \<or> endpos (?ns ! ?an) < int (length tx)"
      proof (cases "?an = 0")
        case False
        with ac(5) have "endpos (?ns ! ?an) \<noteq> int (length tx)" by (simp add: is_leaf_def)
        moreover from False ac(1) nodes_okD(3) [OF t(4), of ?an]
        have "endpos (?ns ! ?an) \<le> int (length tx)" by simp
        ultimately show ?thesis by simp
      qed simp
    qed
    from cd(4) p(2) lo have "tree_ok tx d (set_suffix_link ?ns s ?an) j"
      by (rule tree_ok_set_suffix_link)
    moreover have "linked_ok tx (set_suffix_link ?ns s ?an) None"
      unfolding linked_ok_def
    proof (intro allI impI, elim conjE)
      fix v
      assume v: "0 < v" "v < length (set_suffix_link ?ns s ?an)"
        "\<not> is_leaf tx (set_suffix_link ?ns s ?an) v"
      from v(2) have v': "v < length ?ns" by (simp add: set_suffix_link_simps)
      from v(3) have "\<not> is_leaf tx ?ns v" by (simp add: is_leaf_set_suffix_link)
      with cd(5) v(1) v' Some have "suffix_link (?ns ! v) \<noteq> None \<or> s = v"
        by (simp add: linked_ok_def)
      with v' show "suffix_link (set_suffix_link ?ns s ?an ! v) \<noteq> None \<or> None = Some v"
        by (auto simp: set_suffix_link_link)
    qed
    ultimately show ?thesis using Some by (simp add: nodes')
  qed
  have "active_ok tx d (nodes ?st') (i + 1) j ?st'"
    unfolding active_ok_def fields
  proof (intro conjI)
    show "?an < length (nodes ?st')" using ac(1) by (simp add: len')
    show "0 \<le> ?al + 1" using ac(2) by simp
    show "?al + 1 + d ?an = i + 1 - j" using ac(3) by simp
    show "agree tx (head d (nodes ?st') ?an) j (d ?an)" using ac(4) by (simp add: h')
    show "?an = 0 \<or> \<not> is_leaf tx (nodes ?st') ?an" using ac(5) by (simp add: leaf')
    have "reads tx ?ns ?an (i - ?al) (?al + 1)"
      using ac(1) nx _ _ agE1
    proof (rule reads_part)
      show "0 < ?al + 1" using ac(2) by simp
      show "?al + 1 \<le> ?e - ?s" using short by simp
    qed
    then show "reads tx (nodes ?st') ?an (i + 1 - (?al + 1)) (?al + 1)" by (simp add: rd')
    show "0 < ?al + 1 \<longrightarrow> active_edge st = i + 1 - (?al + 1)" using ae by simp
  qed
  with tl cd(1,2) i \<open>last_new_node ?st' = None\<close> show "core tx d (i + 1) j ?st'"
    by (simp add: core_def)
qed

lemma extend_exit: "\<not> 0 < remainder st \<Longrightarrow> extend tx n i st = Some (Inr st)"
  by (subst extend.simps) simp

lemma extend_unfold:
  assumes "0 < remainder st"
    and "text_at tx (active_edge (if active_length st = 0 then st\<lparr>active_edge := i\<rparr> else st)) = Inr c"
  shows "extend tx n i st =
     (let st1 = (if active_length st = 0 then st\<lparr>active_edge := i\<rparr> else st)
      in case lookup (nodes st1) (active_node st1) c of
           None \<Rightarrow> extend tx n i (next_suffix i (new_leaf n i c st1))
         | Some next_node \<Rightarrow>
             (let edge_length = endpos (nodes st1 ! next_node) - start (nodes st1 ! next_node)
              in if active_length st1 \<ge> edge_length then
                   extend tx n i
                     (st1\<lparr>active_edge := active_edge st1 + edge_length,
                          active_length := active_length st1 - edge_length,
                          active_node := next_node\<rparr>)
                 else
                   (case text_at tx (start (nodes st1 ! next_node) + active_length st1) of
                      Inl e \<Rightarrow> Some (Inl e)
                    | Inr cm \<Rightarrow>
                        (case text_at tx i of
                           Inl e \<Rightarrow> Some (Inl e)
                         | Inr ci \<Rightarrow>
                             if cm = ci then Some (Inr (rule3 st1))
                             else
                               (case split_edge tx n i c ci next_node st1 of
                                  Inl e \<Rightarrow> Some (Inl e)
                                | Inr st2 \<Rightarrow> extend tx n i (next_suffix i st2))))))"
proof -
  note e = extend.simps [of tx n i st]
  show ?thesis
    unfolding lookup_def
    by (rule trans [OF e]) (simp only: assms(1) if_True Let_def assms(2) sum.case)
qed

lemma finishes_exit:
  assumes "phase_inv tx d (i + 1) st" and "remainder st = 0"
  shows "finishes tx i st"
  unfolding finishes_def using assms extend_exit [of st tx "int (length tx)" i] by auto

lemma finishes_next_suffix:
  assumes m: "mid_inv tx d i j st2" and r: "remainder st2 = i - j + 1"
    and ih: "\<And>y d. loop_inv tx d i y \<Longrightarrow> remainder y = i - j \<Longrightarrow> finishes tx i y"
  shows "finishes tx i (next_suffix i st2)"
proof (cases "j < i")
  case True
  with next_suffix_step [OF m r] have "loop_inv tx d i (next_suffix i st2)" by simp
  moreover from r have "remainder (next_suffix i st2) = i - j" by (simp add: next_suffix_fields)
  ultimately show ?thesis by (rule ih)
next
  case False
  with next_suffix_step [OF m r]
  have "phase_inv tx d (i + 1) (next_suffix i st2)" "remainder (next_suffix i st2) = 0"
    by simp_all
  then show ?thesis by (rule finishes_exit)
qed

lemma extend_total:
  assumes "loop_inv tx d i st"
  shows "finishes tx i st"
proof -
  let ?n = "int (length tx)"
  let ?R = "inv_image (less_than <*lex*> less_than)
     (\<lambda>st. (nat (remainder st), nat (active_length st)))"
  have "wf ?R" by auto
  then have "\<forall>d. loop_inv tx d i st \<longrightarrow> finishes tx i st"
  proof (induction st rule: wf_induct_rule)
    case (less st)
    show ?case
    proof (intro allI impI)
      fix d
      assume li: "loop_inv tx d i st"
      define j where "j = i - remainder st + 1"
      define st1 where "st1 = (if active_length st = 0 then st\<lparr>active_edge := i\<rparr> else st)"
      let ?ns = "nodes st" and ?an = "active_node st" and ?al = "active_length st"
      from li have rp: "0 < remainder st" and i: "i < ?n" and co: "core tx d i j st"
        by (simp_all add: loop_inv_def j_def)
      have rj: "remainder st = i - j + 1" by (simp add: j_def)
      have f1: "nodes st1 = ?ns" "active_node st1 = ?an" "active_length st1 = ?al"
        "remainder st1 = remainder st" "last_new_node st1 = last_new_node st"
        by (simp_all add: st1_def)
      note cd = coreD [OF co]
      note ac = active_okD [OF cd(7)]
      have ae1: "active_edge st1 = i - active_length st1"
        using ac(7) ac(2) by (cases "?al = 0") (simp_all add: st1_def)
      have "active_ok tx d (nodes st1) i j st1"
        using cd(7) by (simp add: active_ok_def st1_def reads_done)
      with cd have co1: "core tx d i j st1" by (simp add: core_def f1)
      note t = tree_okD [OF cd(4)]
      note w = wf_storeD [OF t(1)]
      from depth_nonneg [OF w(2) ac(1)] have da: "0 \<le> d ?an" .
      from cd(1,2) have i0: "0 \<le> i" by simp
      define c where "c = tx ! nat (i - ?al)"
      have "0 \<le> i - ?al" using ac(3) da cd(1) by simp
      moreover have "i - ?al < ?n" using ac(2) i by simp
      ultimately have "text_at tx (i - ?al) = Inr c" unfolding c_def by (rule text_at_in)
      with ae1 have tc: "text_at tx (active_edge st1) = Inr c" by (simp add: f1)
      note un = extend_unfold [OF rp tc [unfolded st1_def], of ?n, folded st1_def]
      have ci: "text_at tx i = Inr (tx ! nat i)" using i0 i by (rule text_at_in)
      have ih1: "finishes tx i y" if "loop_inv tx d' i y" "remainder y = i - j" for y d'
      proof -
        from that(2) rj rp have "(y, st) \<in> ?R" by simp
        from less.IH [OF this] that(1) show ?thesis by blast
      qed
      show "finishes tx i st"
      proof (cases "lookup ?ns ?an c")
        case None
        have al0: "?al = 0"
        proof (rule ccontr)
          assume "?al \<noteq> 0"
          with ac(2) have "0 < ?al" by simp
          with ac(6) obtain b where "lookup ?ns ?an (tx ! nat (i - ?al)) = Some b"
            by (rule reads_step)
          with None show False by (simp add: c_def)
        qed
        from al0 have c': "c = tx ! nat i" by (simp add: c_def)
        from None have "lookup (nodes st1) (active_node st1) c = None" by (simp add: f1)
        with leaf_step [OF co1 i _ c'] al0
        obtain d' where m: "mid_inv tx d' i j (new_leaf ?n i c st1)" by (auto simp: f1)
        have r: "remainder (new_leaf ?n i c st1) = i - j + 1"
          using rj by (simp add: new_leaf_state f1)
        from m r ih1 have "finishes tx i (next_suffix i (new_leaf ?n i c st1))"
          by (rule finishes_next_suffix)
        moreover from None have "extend tx ?n i st = extend tx ?n i (next_suffix i (new_leaf ?n i c st1))"
          by (simp add: un f1 Let_def)
        ultimately show ?thesis by (simp add: finishes_def)
      next
        case (Some nx)
        define el where "el = endpos (?ns ! nx) - start (?ns ! nx)"
        from Some have nx1: "lookup (nodes st1) (active_node st1) (tx ! nat (i - active_length st1)) = Some nx"
          by (simp add: f1 c_def)
        note f = edge_facts [OF w(3) ac(1) Some]
        show ?thesis
        proof (cases "el \<le> ?al")
          case True
          define st2 where "st2 = st1\<lparr>active_edge := active_edge st1 + el,
              active_length := active_length st1 - el, active_node := nx\<rparr>"
          from True have le1: "el \<le> active_length st1" by (simp add: f1)
          have el1: "el = endpos (nodes st1 ! nx) - start (nodes st1 ! nx)" by (simp add: el_def f1)
          from walk_step [OF co1 i nx1 el1 le1]
          have co2: "core tx d i j st2" and elp: "0 < el" by (simp_all add: st2_def)
          have r2: "remainder st2 = remainder st" and a2: "active_length st2 = ?al - el"
            by (simp_all add: st2_def f1)
          from co2 rp i have "loop_inv tx d i st2" by (simp add: loop_inv_def r2 j_def)
          moreover from r2 a2 elp True have "(st2, st) \<in> ?R" by simp
          ultimately have "finishes tx i st2" using less.IH by blast
          moreover from True Some have "extend tx ?n i st = extend tx ?n i st2"
            by (simp add: un f1 Let_def st2_def el_def)
          ultimately show ?thesis by (simp add: finishes_def)
        next
          case False
          then have short: "?al < el" by simp
          have "0 \<le> start (?ns ! nx) + ?al" using f(3) ac(2) by simp
          moreover have "start (?ns ! nx) + ?al < ?n" using short f(5) by (simp add: el_def)
          ultimately have cm: "text_at tx (start (?ns ! nx) + ?al) = Inr (tx ! nat (start (?ns ! nx) + ?al))"
            by (rule text_at_in)
          show ?thesis
          proof (cases "tx ! nat (start (?ns ! nx) + ?al) = tx ! nat i")
            case True
            from short have sh1: "active_length st1 < endpos (nodes st1 ! nx) - start (nodes st1 ! nx)"
              by (simp add: f1 el_def)
            from True have same1: "tx ! nat (start (nodes st1 ! nx) + active_length st1) = tx ! nat i"
              by (simp add: f1)
            note r3 = rule3_step [OF co1 i ae1 nx1 sh1 same1]
            have e: "i + 1 - remainder (rule3 st1) = j" using r3(3) by (simp add: f1 j_def)
            from r3(1) have "core tx d (i + 1) (i + 1 - remainder (rule3 st1)) (rule3 st1)"
              unfolding e .
            with r3(2,3) rp have "phase_inv tx d (i + 1) (rule3 st1)"
              by (simp add: phase_inv_def f1)
            moreover from True Some short have "extend tx ?n i st = Some (Inr (rule3 st1))"
              by (simp add: un f1 Let_def cm ci el_def)
            ultimately show ?thesis using r3(4) unfolding finishes_def by blast
          next
            case False
            have alp: "0 < ?al"
            proof (rule ccontr)
              assume "\<not> 0 < ?al"
              with ac(2) have "?al = 0" by simp
              with f(6) False show False by (simp add: c_def)
            qed
            from alp have alp1: "0 < active_length st1" by (simp add: f1)
            have c1: "c = tx ! nat (i - active_length st1)" by (simp add: c_def f1)
            from Some have nxc: "lookup (nodes st1) (active_node st1) c = Some nx" by (simp add: f1)
            from short have sh1: "active_length st1 < endpos (nodes st1 ! nx) - start (nodes st1 ! nx)"
              by (simp add: f1 el_def)
            from False have diff1: "tx ! nat (start (nodes st1 ! nx) + active_length st1) \<noteq> tx ! nat i"
              by (simp add: f1)
            from split_step [OF co1 i alp1 c1 nxc sh1 refl diff1]
            obtain st2 d' where sp: "split_edge tx ?n i c (tx ! nat i) nx st1 = Inr st2"
              and m: "mid_inv tx d' i j st2" and r: "remainder st2 = remainder st1"
              by blast
            from r rj have r': "remainder st2 = i - j + 1" by (simp add: f1)
            from m r' ih1 have "finishes tx i (next_suffix i st2)" by (rule finishes_next_suffix)
            moreover from False Some short have "extend tx ?n i st = extend tx ?n i (next_suffix i st2)"
              by (simp add: un f1 Let_def cm ci el_def sp)
            ultimately show ?thesis by (simp add: finishes_def)
          qed
        qed
      qed
    qed
  qed
  with assms show ?thesis by blast
qed

lemma init_inv: "phase_inv tx (\<lambda>v. 0) 0 init_state"
proof -
  let ?d = "\<lambda>v::nat. 0::int"
  let ?ns = "[SuffixTreeNode (-1) (-1)]"
  have lk: "lookup ?ns a c = None" if "a < 1" for a c
    using that by (simp add: lookup_def SuffixTreeNode_def)
  have "keys_ok ?ns" by (simp add: keys_ok_def SuffixTreeNode_def)
  moreover have "depth_ok tx ?d ?ns" by (simp add: depth_ok_def)
  moreover have "edges_ok tx ?d ?ns" by (simp add: edges_ok_def lk)
  moreover have "one_parent ?ns" by (simp add: one_parent_def lk)
  moreover have "links_ok tx ?d ?ns" by (simp add: links_ok_def SuffixTreeNode_def)
  ultimately have "wf_store tx ?d ?ns" by (simp add: wf_store_def)
  moreover have "str_ok tx ?d ?ns" by (simp add: str_ok_def lk)
  moreover have "parent_ok ?ns" by (simp add: parent_ok_def)
  moreover have "nodes_ok tx ?d ?ns 0" by (simp add: nodes_ok_def)
  moreover have "suffixes_ok tx ?ns 0" by (auto simp: suffixes_ok_def)
  moreover have "leaves_ok tx ?d ?ns 0" by (auto simp: leaves_ok_def)
  ultimately have "tree_ok tx ?d ?ns 0" by (simp add: tree_ok_def)
  moreover have "linked_ok tx ?ns None" by (simp add: linked_ok_def)
  moreover have "active_ok tx ?d ?ns 0 0 init_state"
    by (simp add: active_ok_def init_state_def root_def agree_empty reads_done)
  ultimately have "core tx ?d 0 0 init_state"
    by (simp add: core_def init_state_def)
  then show ?thesis by (simp add: phase_inv_def init_state_def)
qed

lemma phase_start:
  assumes "phase_inv tx d i st" and "i < int (length tx)"
  shows "loop_inv tx d i (st\<lparr>remainder := remainder st + 1, last_new_node := None\<rparr>)"
proof -
  let ?st = "st\<lparr>remainder := remainder st + 1, last_new_node := None\<rparr>"
  from assms(1) have r: "0 \<le> remainder st" and l: "last_new_node st = None"
    and c: "core tx d i (i - remainder st) st"
    by (simp_all add: phase_inv_def)
  have e: "i - remainder ?st + 1 = i - remainder st" by simp
  from c l have "core tx d i (i - remainder st) ?st"
    by (simp add: core_def active_ok_def)
  with r assms(2) show ?thesis unfolding loop_inv_def e by simp
qed

lemma phases_total:
  assumes "built tx k st" and "k \<le> length tx"
  shows "\<exists>st'. phases tx (int (length tx)) [k..<length tx] st = Some (Inr st') \<and>
           built tx (length tx) st'"
  using assms
proof (induction "length tx - k" arbitrary: k st)
  case 0
  then have "k = length tx" by simp
  with 0 show ?case by simp
next
  case (Suc m)
  then have k: "k < length tx" by simp
  from Suc.prems(1) obtain d where p: "phase_inv tx d (int k) st" by (auto simp: built_def)
  let ?st = "st\<lparr>remainder := remainder st + 1, last_new_node := None\<rparr>"
  from p k have "loop_inv tx d (int k) ?st" by (intro phase_start) simp_all
  then have "finishes tx (int k) ?st" by (rule extend_total)
  then obtain st' d' where e: "extend tx (int (length tx)) (int k) ?st = Some (Inr st')"
    and p': "phase_inv tx d' (int k + 1) st'"
    and u: "remainder st' = 0 \<or> (\<exists>q. 0 \<le> q \<and> q < int k \<and> tx ! nat q = tx ! nat (int k))"
    unfolding finishes_def by blast
  from p' u have b: "built tx (Suc k) st'"
    unfolding built_def by (auto simp: add.commute)
  from Suc.hyps(2) have m: "m = length tx - Suc k" by simp
  from k have "Suc k \<le> length tx" by simp
  from Suc.hyps(1) [OF m b this] obtain st'' where
    "phases tx (int (length tx)) [Suc k..<length tx] st' = Some (Inr st'')" "built tx (length tx) st''"
    by blast
  with e k show ?case by (simp add: upt_conv_Cons)
qed

lemma build_suffix_tree_total:
  "\<exists>st. build_suffix_tree tx = Some (Inr st) \<and> built tx (length tx) st"
proof -
  have "built tx 0 init_state" using init_inv [of tx] by (auto simp: built_def)
  from phases_total [OF this] show ?thesis by (simp add: build_suffix_tree_def)
qed

lemma SuffixTree_total: "\<exists>st. SuffixTree s = Some (Inr (s @ ''$'', nodes st)) \<and> built (s @ ''$'') (Suc (length s)) st"
proof -
  from build_suffix_tree_total [of "s @ ''$''"] obtain st where
    "build_suffix_tree (s @ ''$'') = Some (Inr st)" "built (s @ ''$'') (length (s @ ''$'')) st"
    by blast
  then show ?thesis by (intro exI [of _ st]) (simp add: SuffixTree_def Let_def)
qed

subsection \<open>The string spelled to a node\<close>

lemma agree_take:
  assumes "agree tx p q m" and "0 \<le> p" and "0 \<le> q"
    and "p + m \<le> int (length tx)" and "q + m \<le> int (length tx)"
  shows "take (nat m) (drop (nat p) tx) = take (nat m) (drop (nat q) tx)"
proof (rule nth_equalityI)
  show "length (take (nat m) (drop (nat p) tx)) = length (take (nat m) (drop (nat q) tx))"
    using assms(2-5) by simp
next
  fix k
  assume "k < length (take (nat m) (drop (nat p) tx))"
  then have k: "k < nat m" by simp
  then have "int k < m" by simp
  from agreeD [OF assms(1) _ this] have "tx ! nat (p + int k) = tx ! nat (q + int k)" by simp
  moreover have "nat (p + int k) = nat p + k" "nat (q + int k) = nat q + k"
    using assms(2,3) by (simp_all add: nat_add_distrib)
  ultimately show "take (nat m) (drop (nat p) tx) ! k = take (nat m) (drop (nat q) tx) ! k"
    using k assms(2-5) by simp
qed

lemma py_slice_in:
  assumes "0 \<le> s" and "s \<le> e" and "e \<le> int (length tx)"
  shows "py_slice tx s e = take (nat (e - s)) (drop (nat s) tx)"
  using assms by (simp add: py_slice_def Let_def min_def)

lemma label_root: "depth_ok tx d ns \<Longrightarrow> label tx d ns 0 = []"
  by (simp add: label_def depth_ok_def)

lemma depth_le:
  assumes "tree_ok tx d ns j" and "v < length ns"
  shows "d v \<le> int (length tx)"
proof (cases "v = 0")
  case True
  with tree_okD(1) [OF assms(1)] show ?thesis by (simp add: wf_store_def depth_ok_def)
next
  case False
  with nodes_okD [OF tree_okD(4) [OF assms(1)], of v] assms(2) show ?thesis
    by (simp add: head_def)
qed

lemma label_length:
  assumes "tree_ok tx d ns j" and "v < length ns"
  shows "length (label tx d ns v) = nat (d v)"
proof (cases "v = 0")
  case True
  with tree_okD(1) [OF assms(1)] show ?thesis by (simp add: wf_store_def depth_ok_def label_def)
next
  case False
  with nodes_okD [OF tree_okD(4) [OF assms(1)], of v] assms(2) show ?thesis
    by (simp add: head_def label_def)
qed

lemma label_child:
  assumes t: "tree_ok tx d ns j" and a: "a < length ns" and l: "lookup ns a c = Some b"
  shows "label tx d ns b = label tx d ns a @ py_slice tx (start (ns ! b)) (endpos (ns ! b))"
    and "label tx d ns b ! nat (d a) = c"
    and "d a < d b"
proof -
  note td = tree_okD [OF t]
  note w = wf_storeD [OF td(1)]
  note f = edge_facts [OF w(3) a l]
  note nb = nodes_okD [OF td(4) f(1,2)]
  let ?el = "endpos (ns ! b) - start (ns ! b)"
  from depth_nonneg [OF w(2) a] have da: "0 \<le> d a" .
  from f(4,7) show lt: "d a < d b" by simp
  have hb: "head d ns b + d b = endpos (ns ! b)" by (simp add: head_def)
  from td(2) a l have ag: "agree tx (head d ns b) (head d ns a) (d a)" by (simp add: str_ok_def)
  have la: "label tx d ns a = take (nat (d a)) (drop (nat (head d ns b)) tx)"
  proof (cases "a = 0")
    case True
    with w(2) show ?thesis by (simp add: label_def depth_ok_def)
  next
    case False
    note na = nodes_okD [OF td(4) _ a]
    from False have a0: "0 < a" by simp
    have "take (nat (d a)) (drop (nat (head d ns b)) tx) = take (nat (d a)) (drop (nat (head d ns a)) tx)"
      using ag nb(1) na(1) [OF a0]
    proof (rule agree_take)
      show "head d ns b + d a \<le> int (length tx)" using hb lt nb(3) by simp
      show "head d ns a + d a \<le> int (length tx)" using na(3) [OF a0] by (simp add: head_def)
    qed
    then show ?thesis by (simp add: label_def)
  qed
  have sl: "py_slice tx (start (ns ! b)) (endpos (ns ! b)) = take (nat ?el) (drop (nat (start (ns ! b))) tx)"
    using f(3,4,5) by (intro py_slice_in) simp_all
  have e1: "nat (d b) = nat (d a) + nat ?el" using f(4,7) da by simp
  have e2: "nat (start (ns ! b)) = nat (d a) + nat (head d ns b)"
    using f(8) da nb(1) by (simp add: nat_add_distrib [symmetric] add.commute)
  show lb: "label tx d ns b = label tx d ns a @ py_slice tx (start (ns ! b)) (endpos (ns ! b))"
    unfolding la sl by (simp add: label_def e1 e2 take_add)
  have "length (label tx d ns a) = nat (d a)" using t a by (rule label_length)
  moreover have "py_slice tx (start (ns ! b)) (endpos (ns ! b)) ! 0 = tx ! nat (start (ns ! b))"
    unfolding sl using f(3,4,5) by simp
  ultimately show "label tx d ns b ! nat (d a) = c"
    using f(6) by (simp add: lb nth_append)
qed

subsection \<open>The nodes below a node\<close>

lemma reach_snoc:
  assumes "reach ns a u" and "u < length ns" and "lookup ns u c = Some v"
  shows "reach ns a v"
  using assms
proof (induction rule: reach.induct)
  case (reach_refl a)
  then show ?case by (intro reach_step [OF _ _ reach.reach_refl])
next
  case (reach_step a c' b u)
  from reach_step.IH [OF reach_step.prems] have "reach ns b v" .
  with reach_step.hyps(1,2) show ?case by (rule reach.reach_step)
qed

lemma reach_root:
  assumes t: "tree_ok tx d ns j"
  shows "v < length ns \<Longrightarrow> reach ns 0 v"
proof (induction "nat (d v)" arbitrary: v rule: less_induct)
  case less
  note td = tree_okD [OF t]
  note w = wf_storeD [OF td(1)]
  show ?case
  proof (cases "v = 0")
    case True
    then show ?thesis by (simp add: reach_refl)
  next
    case False
    with td(3) less.prems obtain a c where a: "a < length ns" and l: "lookup ns a c = Some v"
      by (auto simp: parent_ok_def)
    from edge_facts(4,7) [OF w(3) a l] depth_nonneg [OF w(2) a] have "nat (d a) < nat (d v)" by simp
    from less.hyps [OF this a] have "reach ns 0 a" .
    then show ?thesis using a l by (rule reach_snoc)
  qed
qed

lemma reach_below:
  assumes t: "tree_ok tx d ns j" and r: "reach ns a v" and a: "a < length ns"
  shows "v < length ns \<and> d a \<le> d v \<and> take (nat (d a)) (label tx d ns v) = label tx d ns a"
  using r a
proof (induction rule: reach.induct)
  case (reach_refl a)
  with label_length [OF t, of a] show ?case by simp
next
  case (reach_step a c b v)
  note w = wf_storeD [OF tree_okD(1) [OF t]]
  from edge_facts(2) [OF w(3) reach_step.hyps(1,2)] have b: "b < length ns" .
  from reach_step.IH [OF b] have v: "v < length ns" and le: "d b \<le> d v"
    and tk: "take (nat (d b)) (label tx d ns v) = label tx d ns b" by simp_all
  note lc = label_child [OF t reach_step.hyps(1,2)]
  from depth_nonneg [OF w(2) reach_step.hyps(1)] have da: "0 \<le> d a" .
  have "take (nat (d a)) (label tx d ns v) = take (nat (d a)) (take (nat (d b)) (label tx d ns v))"
    using lc(3) da by (simp add: min_def)
  also have "\<dots> = take (nat (d a)) (label tx d ns b)" by (simp only: tk)
  also have "\<dots> = label tx d ns a"
    using label_length [OF t reach_step.hyps(1)] by (simp add: lc(1))
  finally show ?case using v le lc(3) by simp
qed

lemma reach_char:
  assumes t: "tree_ok tx d ns j" and a: "a < length ns" and l: "lookup ns a c = Some b"
    and r: "reach ns b v"
  shows "label tx d ns v ! nat (d a) = c"
proof -
  note w = wf_storeD [OF tree_okD(1) [OF t]]
  from edge_facts(2) [OF w(3) a l] have b: "b < length ns" .
  from reach_below [OF t r b] have tk: "take (nat (d b)) (label tx d ns v) = label tx d ns b" by simp
  note lc = label_child [OF t a l]
  from depth_nonneg [OF w(2) a] lc(3) have "nat (d a) < nat (d b)" by simp
  then have "take (nat (d b)) (label tx d ns v) ! nat (d a) = label tx d ns v ! nat (d a)" by simp
  with tk lc(2) show ?thesis by simp
qed

lemma reach_cases:
  assumes "reach ns a v"
  shows "v = a \<or> (\<exists>c b. a < length ns \<and> lookup ns a c = Some b \<and> reach ns b v)"
  using assms by (cases rule: reach.cases) auto

subsection \<open>The traversal lists the leaves below a node\<close>

lemma lookup_children:
  assumes "keys_ok ns" and "a < length ns"
  shows "lookup ns a c = Some b \<longleftrightarrow> (c, b) \<in> set (children (ns ! a))"
proof -
  from assms have "distinct (map fst (children (ns ! a)))" by (simp add: keys_ok_def)
  then show ?thesis by (simp add: lookup_def)
qed

lemma leaves_below_leaf:
  assumes "keys_ok ns" and "a < length ns" and "children (ns ! a) = []"
  shows "leaves_below tx d ns a = {label tx d ns a}"
proof -
  have "v = a" if "reach ns a v" for v
    using reach_cases [OF that] assms(3) by (auto simp: lookup_def)
  with assms(3) show ?thesis by (auto simp: leaves_below_def reach_refl)
qed

lemma leaves_below_inner:
  assumes "keys_ok ns" and "a < length ns" and "children (ns ! a) \<noteq> []"
  shows "leaves_below tx d ns a = (\<Union>(c, b) \<in> set (children (ns ! a)). leaves_below tx d ns b)"
proof (intro set_eqI iffI)
  fix l
  assume "l \<in> leaves_below tx d ns a"
  then obtain v where l: "l = label tx d ns v" and r: "reach ns a v" and e: "children (ns ! v) = []"
    by (auto simp: leaves_below_def)
  from e assms(3) have "v \<noteq> a" by auto
  with reach_cases [OF r] obtain c b where "lookup ns a c = Some b" "reach ns b v" by blast
  with lookup_children [OF assms(1,2)] l e
  show "l \<in> (\<Union>(c, b) \<in> set (children (ns ! a)). leaves_below tx d ns b)"
    by (auto simp: leaves_below_def)
next
  fix l
  assume "l \<in> (\<Union>(c, b) \<in> set (children (ns ! a)). leaves_below tx d ns b)"
  then obtain c b v where cb: "(c, b) \<in> set (children (ns ! a))" and l: "l = label tx d ns v"
    and r: "reach ns b v" and e: "children (ns ! v) = []"
    by (auto simp: leaves_below_def)
  from cb lookup_children [OF assms(1,2)] have "lookup ns a c = Some b" by simp
  with assms(2) have "reach ns a v" using r by (rule reach_step)
  with l e show "l \<in> leaves_below tx d ns a" by (auto simp: leaves_below_def)
qed

lemma leaf_labels_children_ok:
  assumes t: "tree_ok tx d ns j" and a: "a < length ns"
    and ih: "\<And>b. b < length ns \<Longrightarrow> d a < d b \<Longrightarrow>
       \<exists>ls. leaf_labels k tx ns b (label tx d ns b) = Some ls \<and> distinct ls \<and>
            set ls = leaves_below tx d ns b"
  shows "distinct (map fst cs) \<Longrightarrow> (\<forall>(c, b) \<in> set cs. lookup ns a c = Some b) \<Longrightarrow>
     \<exists>ls. leaf_labels_children k tx ns (label tx d ns a) cs = Some ls \<and> distinct ls \<and>
          set ls = (\<Union>(c, b) \<in> set cs. leaves_below tx d ns b)"
proof (induction cs)
  case Nil
  then show ?case by simp
next
  case (Cons x cs)
  obtain c b where x: "x = (c, b)" by (cases x)
  note w = wf_storeD [OF tree_okD(1) [OF t]]
  from Cons.prems(2) x have l: "lookup ns a c = Some b" by simp
  from edge_facts(2) [OF w(3) a l] have b: "b < length ns" .
  note lc = label_child [OF t a l]
  from ih [OF b lc(3)] obtain ls where ls: "leaf_labels k tx ns b (label tx d ns b) = Some ls"
    "distinct ls" "set ls = leaves_below tx d ns b" by blast
  from Cons.prems have "distinct (map fst cs)" "\<forall>(c, b) \<in> set cs. lookup ns a c = Some b"
    by simp_all
  from Cons.IH [OF this] obtain ls' where ls': "leaf_labels_children k tx ns (label tx d ns a) cs = Some ls'"
    "distinct ls'" "set ls' = (\<Union>(c, b) \<in> set cs. leaves_below tx d ns b)" by blast
  have disj: "set ls \<inter> set ls' = {}"
  proof (rule ccontr)
    assume "set ls \<inter> set ls' \<noteq> {}"
    then obtain l where l1: "l \<in> set ls" and l2: "l \<in> set ls'" by blast
    from l1 ls(3) obtain v where v: "l = label tx d ns v" "reach ns b v"
      by (auto simp: leaves_below_def)
    from l2 ls'(3) obtain c' b' v' where v': "(c', b') \<in> set cs" "l = label tx d ns v'" "reach ns b' v'"
      by (auto simp: leaves_below_def)
    from Cons.prems(2) v'(1) have l': "lookup ns a c' = Some b'" by auto
    from reach_char [OF t a l v(2)] v(1) have "l ! nat (d a) = c" by simp
    moreover from reach_char [OF t a l' v'(3)] v'(2) have "l ! nat (d a) = c'" by simp
    ultimately have "c = c'" by simp
    with v'(1) have "c \<in> fst ` set cs" by force
    with Cons.prems(1) x show False by simp
  qed
  have "leaf_labels_children k tx ns (label tx d ns a) (x # cs) = Some (ls @ ls')"
    using ls(1) ls'(1) by (simp add: x lc(1) [symmetric])
  moreover have "distinct (ls @ ls')" using ls(2) ls'(2) disj by simp
  moreover have "set (ls @ ls') = (\<Union>(c, b) \<in> set (x # cs). leaves_below tx d ns b)"
    using ls(3) ls'(3) by (simp add: x)
  ultimately show ?case by blast
qed

lemma leaf_labels_ok:
  assumes t: "tree_ok tx d ns j"
  shows "a < length ns \<Longrightarrow> nat (int (length tx) - d a) < k \<Longrightarrow>
     \<exists>ls. leaf_labels k tx ns a (label tx d ns a) = Some ls \<and> distinct ls \<and>
          set ls = leaves_below tx d ns a"
proof (induction k arbitrary: a)
  case 0
  then show ?case by simp
next
  case (Suc k)
  note w = wf_storeD [OF tree_okD(1) [OF t]]
  show ?case
  proof (cases "children (ns ! a) = []")
    case True
    with leaves_below_leaf [OF w(1) Suc.prems(1) True, of tx d] show ?thesis by simp
  next
    case False
    have ih: "\<exists>ls. leaf_labels k tx ns b (label tx d ns b) = Some ls \<and> distinct ls \<and>
            set ls = leaves_below tx d ns b" if b: "b < length ns" and lt: "d a < d b" for b
    proof -
      from depth_le [OF t b] lt Suc.prems(2) have "nat (int (length tx) - d b) < k" by simp
      with b show ?thesis by (rule Suc.IH)
    qed
    from w(1) Suc.prems(1) have "distinct (map fst (children (ns ! a)))" by (simp add: keys_ok_def)
    moreover have "\<forall>(c, b) \<in> set (children (ns ! a)). lookup ns a c = Some b"
      using lookup_children [OF w(1) Suc.prems(1)] by auto
    ultimately obtain ls where "leaf_labels_children k tx ns (label tx d ns a) (children (ns ! a)) = Some ls"
      "distinct ls" "set ls = (\<Union>(c, b) \<in> set (children (ns ! a)). leaves_below tx d ns b)"
      using leaf_labels_children_ok [OF t Suc.prems(1) ih] by blast
    with False leaves_below_inner [OF w(1) Suc.prems(1) False, of tx d] show ?thesis by simp
  qed
qed

subsection \<open>The leaves of the finished tree\<close>

lemma suffixes_of_distinct: "distinct (suffixes_of tx)"
proof -
  have "inj_on (\<lambda>k. drop k tx) {0..<length tx}"
  proof (rule inj_onI)
    fix x y
    assume "x \<in> {0..<length tx}" "y \<in> {0..<length tx}" "drop x tx = drop y tx"
    then have "length (drop x tx) = length (drop y tx)" "x < length tx" "y < length tx" by simp_all
    then show "x = y" by simp
  qed
  then show ?thesis by (simp add: suffixes_of_def distinct_map)
qed

lemma no_children_iff: "(\<forall>c. lookup ns v c = None) \<longleftrightarrow> children (ns ! v) = []"
proof
  assume n: "\<forall>c. lookup ns v c = None"
  show "children (ns ! v) = []"
  proof (cases "children (ns ! v)")
    case (Cons x xs)
    with n [rule_format, of "fst x"] show ?thesis by (simp add: lookup_def)
  qed simp
qed (simp add: lookup_def)

lemma leaves_below_root:
  assumes t: "tree_ok tx d ns (int (length tx))" and ne: "tx \<noteq> []"
  shows "leaves_below tx d ns 0 = set (suffixes_of tx)"
proof -
  note td = tree_okD [OF t]
  note w = wf_storeD [OF td(1)]
  from w(2) have len: "0 < length ns" by (simp add: depth_ok_def)
  from td(6) have lv1: "\<And>v. 0 < v \<Longrightarrow> v < length ns \<Longrightarrow> is_leaf tx ns v = (\<forall>c. lookup ns v c = None)"
    and lv2: "\<And>k. 0 \<le> k \<Longrightarrow> k < int (length tx) \<Longrightarrow>
        \<exists>v. 0 < v \<and> v < length ns \<and> is_leaf tx ns v \<and> head d ns v = k"
    by (simp_all add: leaves_ok_def)
  have lab: "label tx d ns v = drop (nat (head d ns v)) tx" if "is_leaf tx ns v" for v
  proof -
    from that have "d v = int (length tx) - head d ns v" by (simp add: is_leaf_def head_def)
    then show ?thesis by (simp add: label_def)
  qed
  have root: "children (ns ! 0) \<noteq> []"
  proof
    assume e: "children (ns ! 0) = []"
    from ne lv2 [of 0] obtain v where v: "0 < v" "v < length ns" by auto
    from reach_cases [OF reach_root [OF t v(2)]] e v(1) show False by (auto simp: lookup_def)
  qed
  show ?thesis
  proof (intro set_eqI iffI)
    fix l
    assume "l \<in> leaves_below tx d ns 0"
    then obtain v where l: "l = label tx d ns v" and r: "reach ns 0 v" and e: "children (ns ! v) = []"
      by (auto simp: leaves_below_def)
    from reach_below [OF t r len] have v: "v < length ns" by simp
    from e root have v0: "0 < v" by (cases "v = 0") auto
    from lv1 [OF v0 v] e have lf: "is_leaf tx ns v" by (simp add: no_children_iff)
    note nv = nodes_okD [OF td(4) v0 v]
    from nv(1,2) have "nat (head d ns v) < length tx" by simp
    with l lab [OF lf] show "l \<in> set (suffixes_of tx)" by (auto simp: suffixes_of_def)
  next
    fix l
    assume "l \<in> set (suffixes_of tx)"
    then obtain k where k: "k < length tx" and l: "l = drop k tx" by (auto simp: suffixes_of_def)
    from lv2 [of "int k"] k obtain v where v: "0 < v" "v < length ns" "is_leaf tx ns v"
      "head d ns v = int k" by auto
    from lv1 [OF v(1,2)] v(3) have "children (ns ! v) = []" by (simp add: no_children_iff)
    moreover from reach_root [OF t v(2)] have "reach ns 0 v" .
    moreover from lab [OF v(3)] v(4) l have "l = label tx d ns v" by simp
    ultimately show "l \<in> leaves_below tx d ns 0" by (auto simp: leaves_below_def)
  qed
qed

lemma leaf_labels_root:
  assumes t: "tree_ok tx d ns (int (length tx))" and ne: "tx \<noteq> []"
  shows "\<exists>ls. leaf_labels (Suc (length tx) + k) tx ns root [] = Some ls \<and> length ls = length tx \<and>
           distinct ls \<and> set ls = set (suffixes_of tx)"
proof -
  note w = wf_storeD [OF tree_okD(1) [OF t]]
  from w(2) have len: "0 < length ns" and d0: "d 0 = 0" by (simp_all add: depth_ok_def)
  from d0 have "nat (int (length tx) - d 0) < Suc (length tx) + k" by simp
  from leaf_labels_ok [OF t len this] obtain ls where
    ls: "leaf_labels (Suc (length tx) + k) tx ns 0 (label tx d ns 0) = Some ls" "distinct ls"
      "set ls = leaves_below tx d ns 0" by blast
  from ls(3) have s: "set ls = set (suffixes_of tx)" by (simp add: leaves_below_root [OF t ne])
  from ls(2) have "length ls = card (set ls)" by (simp add: distinct_card)
  also have "\<dots> = card (set (suffixes_of tx))" by (simp only: s)
  also have "\<dots> = length (suffixes_of tx)" by (simp add: distinct_card suffixes_of_distinct)
  also have "\<dots> = length tx" by (simp add: suffixes_of_def)
  finally have "length ls = length tx" .
  with ls(1,2) s show ?thesis by (simp add: label_root [OF w(2)] root_def del: leaf_labels.simps)
qed

subsection \<open>The tree of a sequence without the sentinel\<close>

lemma built_sentinel:
  assumes b: "built (s @ ''$'') (Suc (length s)) st" and s: "CHR ''$'' \<notin> set s"
  shows "\<exists>d. tree_ok (s @ ''$'') d (nodes st) (int (length (s @ ''$'')))"
proof -
  let ?tx = "s @ ''$''"
  from b obtain d where p: "phase_inv ?tx d (int (Suc (length s))) st"
    and u: "remainder st = 0 \<or>
       (\<exists>q. 0 \<le> q \<and> q < int (Suc (length s)) - 1 \<and> ?tx ! nat q = ?tx ! nat (int (Suc (length s)) - 1))"
    by (auto simp: built_def)
  have "remainder st = 0"
  proof (rule ccontr)
    assume "remainder st \<noteq> 0"
    with u obtain q where q: "0 \<le> q" "q < int (length s)" "?tx ! nat q = ?tx ! length s" by auto
    from q(1,2) have "nat q < length s" by simp
    then have "?tx ! nat q \<in> set s" by (simp add: nth_append)
    with q(3) s show False by simp
  qed
  with p have "core ?tx d (int (Suc (length s))) (int (Suc (length s))) st"
    by (simp add: phase_inv_def)
  from coreD(4) [OF this] have "tree_ok ?tx d (nodes st) (int (length ?tx))" by simp
  then show ?thesis by blast
qed

lemma SuffixTree_leaves:
  assumes "CHR ''$'' \<notin> set s"
  shows "\<exists>ns ls. SuffixTree s = Some (Inr (s @ ''$'', ns)) \<and>
           leaf_labels (length s + 2 + k) (s @ ''$'') ns root [] = Some ls \<and>
           length ls = length s + 1 \<and> distinct ls \<and> set ls = set (suffixes_of (s @ ''$''))"
proof -
  from SuffixTree_total [of s] obtain st :: build_state
    where st: "SuffixTree s = Some (Inr (s @ ''$'', nodes st))"
      and b: "built (s @ ''$'') (Suc (length s)) st" by blast
  from built_sentinel [OF b assms] obtain d
    where t: "tree_ok (s @ ''$'') d (nodes st) (int (length (s @ ''$'')))" by blast
  from leaf_labels_root [OF t, of k] obtain ls where
    "leaf_labels (Suc (length (s @ ''$'')) + k) (s @ ''$'') (nodes st) root [] = Some ls"
    "length ls = length (s @ ''$'')" "distinct ls" "set ls = set (suffixes_of (s @ ''$''))"
    by blast
  with st show ?thesis by (intro exI [of _ "nodes st"] exI [of _ ls]) simp
qed


section \<open>The construction ends\<close>

text \<open>
  Claim C6. For every sequence, and so for every non-empty sequence over A, C, G and T,
  \<open>SuffixTree(S)\<close> returns: no pass of the while loop of \<open>build_suffix_tree\<close> is
  followed by infinitely many others, and no index is out of range.
\<close>

theorem SuffixTree_returns: "\<exists>tree. SuffixTree s = Some (Inr tree)"
proof -
  from SuffixTree_total [of s] obtain st :: build_state
    where "SuffixTree s = Some (Inr (s @ ''$'', nodes st))" by blast
  then show ?thesis by (rule exI)
qed


section \<open>The leaves are the suffixes\<close>

text \<open>
  Claim C3. For every sequence \<open>S\<close> over A, C, G and T, the empty one included, the tree
  that \<open>SuffixTree(S)\<close> builds has \<open>|S| + 1\<close> leaves, and the strings spelled by the
  slices \<open>text[start:end]\<close> of the edges from the root to the leaves are distinct and are
  the \<open>|S| + 1\<close> non-empty suffixes of \<open>S + '$'\<close>. The list \<open>ls\<close> holds one string
  for each leaf; a depth bound of \<open>|S| + 2\<close> or more is enough for the traversal.
\<close>

theorem suffix_tree_leaves:
  assumes "set s \<subseteq> set ''ACGT''"
  shows "\<exists>ns ls. SuffixTree s = Some (Inr (s @ ''$'', ns)) \<and>
           leaf_labels (length s + 2 + k) (s @ ''$'') ns root [] = Some ls \<and>
           length ls = length s + 1 \<and> distinct ls \<and> set ls = set (suffixes_of (s @ ''$''))"
proof -
  from assms have "CHR ''$'' \<notin> set s" by auto
  then show ?thesis by (rule SuffixTree_leaves)
qed

theorem suffix_tree_leaves_witness:
  "set ''ACA'' \<subseteq> set ''ACGT'' \<and>
   (\<exists>ns ls. SuffixTree ''ACA'' = Some (Inr (''ACA$'', ns)) \<and>
      leaf_labels 5 ''ACA$'' ns root [] = Some ls \<and>
      length ls = 4 \<and> distinct ls \<and> set ls = set (suffixes_of ''ACA$''))"
  using suffix_tree_leaves [of "''ACA''" 0] by (simp del: leaf_labels.simps add: numeral_eq_Suc)

end
